theory Spec2Isabelle
  imports Main "HOL-Library.Char_ord" "HOL-Library.List_Lexorder" "HOL-Library.AList"
    "HOL-Library.Multiset"
begin

section \<open>Strings\<close>

text \<open>
  Python strings are modelled as \<open>string\<close> (byte lists, UTF-8). All character classes used
  by \<open>to_snake\<close> are ASCII classes (\<open>[a-z0-9]\<close>, \<open>[A-Z]\<close>, \<open>[^0-9a-zA-Z_]\<close>); every byte of
  a non-ASCII character is outside \<open>[0-9a-zA-Z_]\<close>.
\<close>

definition is_lower :: "char \<Rightarrow> bool" where
  "is_lower c = (CHR ''a'' \<le> c \<and> c \<le> CHR ''z'')"

definition is_upper :: "char \<Rightarrow> bool" where
  "is_upper c = (CHR ''A'' \<le> c \<and> c \<le> CHR ''Z'')"

definition is_digit :: "char \<Rightarrow> bool" where
  "is_digit c = (CHR ''0'' \<le> c \<and> c \<le> CHR ''9'')"

text \<open>The complement of the class of \<open>_identifier_re = [^0-9a-zA-Z_]+\<close>.\<close>

definition is_ident :: "char \<Rightarrow> bool" where
  "is_ident c = (is_digit c \<or> is_lower c \<or> is_upper c \<or> c = CHR ''_'')"

text \<open>ASCII whitespace as \<open>str.strip()\<close> sees it: TAB..CR, FS..US and the space.\<close>

definition is_space :: "char \<Rightarrow> bool" where
  "is_space c = ((9::nat) \<le> of_char c \<and> (of_char c :: nat) \<le> 13
     \<or> (28::nat) \<le> of_char c \<and> (of_char c :: nat) \<le> 32)"

definition lstrip :: "(char \<Rightarrow> bool) \<Rightarrow> string \<Rightarrow> string" where
  "lstrip P s = dropWhile P s"

definition rstrip :: "(char \<Rightarrow> bool) \<Rightarrow> string \<Rightarrow> string" where
  "rstrip P s = rev (dropWhile P (rev s))"

definition strip :: "(char \<Rightarrow> bool) \<Rightarrow> string \<Rightarrow> string" where
  "strip P s = rstrip P (lstrip P s)"

text \<open>
  \<open>str.strip()\<close> on arbitrary text: beside the ASCII whitespace it removes the characters
  U+0085, U+00A0, U+1680, U+2000..U+200A, U+2028, U+2029, U+202F, U+205F and U+3000, which
  are two or three bytes in UTF-8.
\<close>

definition is_space2 :: "char \<Rightarrow> char \<Rightarrow> bool" where
  "is_space2 a b = (a = CHR 0xC2 \<and> (b = CHR 0x85 \<or> b = CHR 0xA0))"

definition is_space3 :: "char \<Rightarrow> char \<Rightarrow> char \<Rightarrow> bool" where
  "is_space3 a b c =
     (a = CHR 0xE1 \<and> b = CHR 0x9A \<and> c = CHR 0x80
      \<or> a = CHR 0xE2 \<and> b = CHR 0x80
          \<and> (CHR 0x80 \<le> c \<and> c \<le> CHR 0x8A \<or> c = CHR 0xA8 \<or> c = CHR 0xA9 \<or> c = CHR 0xAF)
      \<or> a = CHR 0xE2 \<and> b = CHR 0x81 \<and> c = CHR 0x9F
      \<or> a = CHR 0xE3 \<and> b = CHR 0x80 \<and> c = CHR 0x80)"

text \<open>Dropping leading whitespace characters; \<open>P2\<close> and \<open>P3\<close> recognise the two-byte and
  three-byte ones (in the byte order of the list).\<close>

fun drop_spaces ::
  "(char \<Rightarrow> char \<Rightarrow> bool) \<Rightarrow> (char \<Rightarrow> char \<Rightarrow> char \<Rightarrow> bool) \<Rightarrow> string \<Rightarrow> string" where
  "drop_spaces P2 P3 (a # b # c # r) =
     (if is_space a then drop_spaces P2 P3 (b # c # r)
      else if P2 a b then drop_spaces P2 P3 (c # r)
      else if P3 a b c then drop_spaces P2 P3 r
      else a # b # c # r)"
| "drop_spaces P2 P3 [a, b] =
     (if is_space a then drop_spaces P2 P3 [b] else if P2 a b then [] else [a, b])"
| "drop_spaces P2 P3 [a] = (if is_space a then [] else [a])"
| "drop_spaces P2 P3 [] = []"

definition py_lstrip :: "string \<Rightarrow> string" where
  "py_lstrip s = drop_spaces is_space2 is_space3 s"

definition py_rstrip :: "string \<Rightarrow> string" where
  "py_rstrip s = rev (drop_spaces (\<lambda>b a. is_space2 a b) (\<lambda>c b a. is_space3 a b c) (rev s))"

definition py_strip :: "string \<Rightarrow> string" where
  "py_strip s = py_rstrip (py_lstrip s)"

text \<open>\<open>str.lower\<close> on ASCII text.\<close>

definition lower_char :: "char \<Rightarrow> char" where
  "lower_char c = (if is_upper c then char_of (of_char c + (32::nat)) else c)"

definition lower :: "string \<Rightarrow> string" where
  "lower s = map lower_char s"

text \<open>\<open>sep.join(xs)\<close>\<close>

fun join :: "string \<Rightarrow> string list \<Rightarrow> string" where
  "join sep [] = []"
| "join sep [x] = x"
| "join sep (x # y # ys) = x @ sep @ join sep (y # ys)"

section \<open>Name normalization\<close>

text \<open>\<open>re.sub("([a-z0-9])([A-Z])", r"\1_\2", name)\<close>: leftmost non-overlapping matches.\<close>

fun camel_sub :: "string \<Rightarrow> string" where
  "camel_sub (a # b # r) =
     (if (is_lower a \<or> is_digit a) \<and> is_upper b
      then a # CHR ''_'' # b # camel_sub r
      else a # camel_sub (b # r))"
| "camel_sub s = s"

text \<open>\<open>_identifier_re.sub("_", name)\<close>: every maximal run of non-identifier characters
  becomes one underscore.\<close>

function ident_sub :: "string \<Rightarrow> string" where
  "ident_sub [] = []"
| "ident_sub (c # cs) =
     (if is_ident c then c # ident_sub cs
      else CHR ''_'' # ident_sub (dropWhile (\<lambda>x. \<not> is_ident x) cs))"
  by pat_completeness auto
termination
  by (relation "measure length") (auto simp: le_imp_less_Suc length_dropWhile_le)

text \<open>\<open>keyword.kwlist\<close> of the standard library (Python 3.7 and later).\<close>

definition kwlist :: "string list" where
  "kwlist = [''False'', ''None'', ''True'', ''and'', ''as'', ''assert'', ''async'', ''await'',
     ''break'', ''class'', ''continue'', ''def'', ''del'', ''elif'', ''else'', ''except'',
     ''finally'', ''for'', ''from'', ''global'', ''if'', ''import'', ''in'', ''is'', ''lambda'',
     ''nonlocal'', ''not'', ''or'', ''pass'', ''raise'', ''return'', ''try'', ''while'', ''with'',
     ''yield'']"

definition iskeyword :: "string \<Rightarrow> bool" where
  "iskeyword s = (s \<in> set kwlist)"

text \<open>
  \<open>to_snake\<close>. A string is the list of the bytes of its UTF-8 encoding: a character outside
  ASCII is a run of bytes that are no identifier characters, and \<open>_identifier_re.sub\<close>
  replaces the run by one underscore as it does the character. \<open>lower()\<close> is applied to the
  result of that substitution, which holds ASCII letters, digits and underscores only.
\<close>

definition to_snake :: "string \<Rightarrow> string" where
  "to_snake name0 =
     (let name1 = map (\<lambda>c. if c = CHR ''-'' then CHR ''_'' else c) (py_strip name0);
          name2 = camel_sub name1;
          name3 = strip (\<lambda>c. c = CHR ''_'') (lower (ident_sub name2));
          name4 = (if name3 = [] then ''module'' else name3);
          name5 = (if is_digit (hd name4) then ''m_'' @ name4 else name4)
      in if iskeyword name5 then ''mod_'' @ name5 else name5)"

text \<open>The shape of a name that \<open>to_snake\<close> returns.\<close>

definition snake_char :: "char \<Rightarrow> bool" where
  "snake_char c = (is_lower c \<or> is_digit c \<or> c = CHR ''_'')"

definition normalized :: "string \<Rightarrow> bool" where
  "normalized n = (n \<noteq> [] \<and> (\<forall>c \<in> set n. snake_char c) \<and> hd n \<noteq> CHR ''_''
     \<and> last n \<noteq> CHR ''_'' \<and> \<not> is_digit (hd n) \<and> \<not> iskeyword n)"

text \<open>\<open>module_name_for_component\<close>: up to three normalized member names, joined while the
  base is shorter than 20 characters, capped at 40.\<close>

definition module_name_for_component :: "string list \<Rightarrow> string" where
  "module_name_for_component nms =
     (let parts = map to_snake (filter (\<lambda>n. n \<noteq> []) nms);
          base0 = (case parts of [] \<Rightarrow> ''module'' | p # _ \<Rightarrow> p);
          base1 = foldl (\<lambda>base extra. if length base < 20 then base @ ''_'' @ extra else base)
                    base0 (take 2 (drop 1 parts));
          base2 = (if length base1 > 40 then rstrip (\<lambda>c. c = CHR ''_'') (take 40 base1)
                   else base1)
      in if base2 = [] then ''module'' else base2)"

text \<open>\<open>str(i)\<close> for a non-negative integer.\<close>

definition digit_char :: "nat \<Rightarrow> char" where
  "digit_char n = char_of (48 + n)"

function str_nat :: "nat \<Rightarrow> string" where
  "str_nat n = (if n < 10 then [digit_char n] else str_nat (n div 10) @ [digit_char (n mod 10)])"
  by pat_completeness auto
termination
  by (relation "measure id") auto

declare str_nat.simps [simp del]

definition suffixed :: "string \<Rightarrow> nat \<Rightarrow> string" where
  "suffixed base i = base @ ''_'' @ str_nat i"

text \<open>\<open>ensure_unique_module_name\<close>: the loop \<open>while f"{base}_{i}" in used: i += 1\<close>.
  The set \<open>used\<close> is a list here (membership only).\<close>

function first_free :: "string \<Rightarrow> string list \<Rightarrow> nat \<Rightarrow> nat" where
  "first_free base used i =
     (if suffixed base i \<in> set used then first_free base used (Suc i) else i)"
  by pat_completeness auto
termination
proof -
  have nonempty: "str_nat n \<noteq> []" for n
    by (subst str_nat.simps) simp
  have digit_inj: "digit_char a = digit_char b \<Longrightarrow> a < 10 \<Longrightarrow> b < 10 \<Longrightarrow> a = b" for a b
  proof -
    assume e: "digit_char a = digit_char b" and a: "a < 10" and b: "b < 10"
    have "(of_char (digit_char a) :: nat) = 48 + a" "(of_char (digit_char b) :: nat) = 48 + b"
      using a b by (simp_all add: digit_char_def)
    moreover have "(of_char (digit_char a) :: nat) = of_char (digit_char b)"
      by (rule arg_cong[OF e])
    ultimately show "a = b" by linarith
  qed
  have str_inj: "str_nat n = str_nat m \<Longrightarrow> n = m" for n m
  proof (induction n arbitrary: m rule: str_nat.induct)
    case (1 n)
    show ?case
    proof (cases "n < 10")
      case True
      show ?thesis
      proof (cases "m < 10")
        case mt: True
        have "[digit_char n] = [digit_char m]"
          using "1.prems" True mt by (subst (asm) str_nat.simps, subst (asm) (2) str_nat.simps) simp
        then show ?thesis using digit_inj True mt by simp
      next
        case mf: False
        have "[digit_char n] = str_nat (m div 10) @ [digit_char (m mod 10)]"
          using "1.prems" True mf by (subst (asm) str_nat.simps, subst (asm) (2) str_nat.simps) simp
        then show ?thesis using nonempty[of "m div 10"] by simp
      qed
    next
      case False
      show ?thesis
      proof (cases "m < 10")
        case mt: True
        have "str_nat (n div 10) @ [digit_char (n mod 10)] = [digit_char m]"
          using "1.prems" False mt by (subst (asm) str_nat.simps, subst (asm) (2) str_nat.simps) simp
        then show ?thesis using nonempty[of "n div 10"] by simp
      next
        case mf: False
        have "str_nat (n div 10) @ [digit_char (n mod 10)]
              = str_nat (m div 10) @ [digit_char (m mod 10)]"
          using "1.prems" False mf by (subst (asm) str_nat.simps, subst (asm) (2) str_nat.simps) simp
        then have a: "str_nat (n div 10) = str_nat (m div 10)"
          and b: "digit_char (n mod 10) = digit_char (m mod 10)" by simp_all
        from "1.IH"[OF False a] have "n div 10 = m div 10" .
        moreover from digit_inj[OF b] have "n mod 10 = m mod 10" by simp
        ultimately show ?thesis by (metis div_mult_mod_eq)
      qed
    qed
  qed
  have fin: "finite {j. suffixed base j \<in> set used}" for base used
  proof -
    have "inj (suffixed base)" by (auto simp: inj_def suffixed_def dest: str_inj)
    then have "finite (suffixed base -` set used)" by (simp add: finite_vimageI)
    then show ?thesis by (simp add: vimage_def)
  qed
  show ?thesis
  proof (relation "measure (\<lambda>(base, used, i). card {j. i \<le> j \<and> suffixed base j \<in> set used})")
    show "wf (measure (\<lambda>(base, used, i). card {j. i \<le> j \<and> suffixed base j \<in> set used}))"
      by simp
  next
    fix base :: string and used :: "string list" and i :: nat
    assume m: "suffixed base i \<in> set used"
    have f: "finite {j. i \<le> j \<and> suffixed base j \<in> set used}"
      by (rule finite_subset[OF _ fin[of base used]]) auto
    have "i \<in> {j. i \<le> j \<and> suffixed base j \<in> set used}"
      "i \<notin> {j. Suc i \<le> j \<and> suffixed base j \<in> set used}"
      using m by simp_all
    moreover have "{j. Suc i \<le> j \<and> suffixed base j \<in> set used}
          \<subseteq> {j. i \<le> j \<and> suffixed base j \<in> set used}" by auto
    ultimately have "{j. Suc i \<le> j \<and> suffixed base j \<in> set used}
          \<subset> {j. i \<le> j \<and> suffixed base j \<in> set used}" by blast
    then have "card {j. Suc i \<le> j \<and> suffixed base j \<in> set used}
               < card {j. i \<le> j \<and> suffixed base j \<in> set used}"
      using f by (rule psubset_card_mono[rotated])
    then show "((base, used, Suc i), (base, used, i))
      \<in> measure (\<lambda>(base, used, i). card {j. i \<le> j \<and> suffixed base j \<in> set used})"
      by simp
  qed
qed

declare first_free.simps [simp del]

text \<open>Returns the name and the updated \<open>used\<close> set.\<close>

definition ensure_unique_module_name :: "string \<Rightarrow> string list \<Rightarrow> string \<times> string list" where
  "ensure_unique_module_name base used =
     (if base \<notin> set used then (base, base # used)
      else (let nm = suffixed base (first_free base used 2) in (nm, nm # used)))"

section \<open>Data types\<close>

text \<open>
  The syntax tree that \<open>ast.parse\<close> returns, reduced to what \<open>extract_top_level_items\<close> and
  \<open>DependencyVisitor\<close> read of it. Every statement carries its source segment
  (\<open>ast.get_source_segment\<close>, the empty string for \<open>None\<close>); a definition or assignment also
  carries the identifiers of the \<open>Name\<close> nodes in \<open>Load\<close> context that the visitor reaches in
  it, in the order of the traversal. An assignment target is a \<open>Name\<close> or not
  (\<open>Tuple\<close>, \<open>List\<close>, \<open>Starred\<close>, \<open>Attribute\<close>, \<open>Subscript\<close>); \<open>NotName\<close> keeps the identifiers that
  such a target binds. An \<open>If\<close> (\<open>If_stmt\<close>) carries the identifier of \<open>test.left\<close> when the
  test is a \<open>Compare\<close> whose left operand is a \<open>Name\<close>.
\<close>

datatype target = Name string | NotName "string list"

datatype stmt =
    Import string
  | ImportFrom string
  | If_stmt "string option" string
  | ClassDef string string "string list"
  | FunctionDef string string "string list"
  | AsyncFunctionDef string string "string list"
  | Assign "target list" string "string list"
  | AnnAssign target string "string list"
  | OtherStmt

record py_module =
  body :: "stmt list"
  docstring :: "string option"

record TopLevelItem =
  name :: string
  kind :: string
  node :: stmt
  source :: string
  deps :: "string list"

record Component =
  names :: "string list"
  items :: "TopLevelItem list"
  "module_name" :: string

datatype error = RecursionError | KeyError | IndexError

section \<open>AST analysis\<close>

fun loads_of :: "stmt \<Rightarrow> string list" where
  "loads_of (ClassDef n seg lds) = lds"
| "loads_of (FunctionDef n seg lds) = lds"
| "loads_of (AsyncFunctionDef n seg lds) = lds"
| "loads_of (Assign ts seg lds) = lds"
| "loads_of (AnnAssign t seg lds) = lds"
| "loads_of _ = []"

text \<open>\<open>DependencyVisitor(top_level_names).visit(node)\<close>: the set \<open>used\<close>. A set of strings is
  represented by its sorted duplicate-free list; the order in which the interpreter
  iterates a set is not this order (see \<open>iter_set\<close> below).\<close>

definition visitor_used :: "string list \<Rightarrow> stmt \<Rightarrow> string list" where
  "visitor_used top_level_names nd =
     sort (remdups (filter (\<lambda>n. n \<in> set top_level_names) (loads_of nd)))"

definition mk_item :: "string \<Rightarrow> string \<Rightarrow> stmt \<Rightarrow> string \<Rightarrow> TopLevelItem" where
  "mk_item n k nd seg = \<lparr>name = n, kind = k, node = nd, source = seg, deps = []\<rparr>"

text \<open>The items that the second loop of \<open>extract_top_level_items\<close> appends for one node.\<close>

fun node_items :: "stmt \<Rightarrow> TopLevelItem list" where
  "node_items (ClassDef n seg lds) = [mk_item n ''class'' (ClassDef n seg lds) seg]"
| "node_items (FunctionDef n seg lds) = [mk_item n ''func'' (FunctionDef n seg lds) seg]"
| "node_items (AsyncFunctionDef n seg lds) = [mk_item n ''func'' (AsyncFunctionDef n seg lds) seg]"
| "node_items (Assign ts seg lds) =
     concat (map (\<lambda>t. case t of Name n \<Rightarrow> [mk_item n ''assign'' (Assign ts seg lds) seg]
                            | NotName bound \<Rightarrow> []) ts)"
| "node_items (AnnAssign (Name n) seg lds) =
     [mk_item n ''assign'' (AnnAssign (Name n) seg lds) seg]"
| "node_items _ = []"

fun node_imports :: "stmt \<Rightarrow> string list" where
  "node_imports (Import seg) = [py_rstrip seg]"
| "node_imports (ImportFrom seg) = [py_rstrip seg]"
| "node_imports _ = []"

text \<open>\<open>main_block\<close>: the segment of the last \<open>if __name__ ...\<close> node with a non-empty segment.\<close>

fun node_main :: "string option \<Rightarrow> stmt \<Rightarrow> string option" where
  "node_main mb (If_stmt test_left seg) =
     (if test_left = Some ''__name__'' \<and> seg \<noteq> [] then Some seg else mb)"
| "node_main mb _ = mb"

definition set_deps :: "string list \<Rightarrow> TopLevelItem \<Rightarrow> TopLevelItem" where
  "set_deps name_set it =
     it\<lparr>deps := filter (\<lambda>n. n \<noteq> name it) (visitor_used name_set (node it))\<rparr>"

text \<open>Returns \<open>(items, imports, main_block_src, module_docstring)\<close>.\<close>

definition extract_top_level_items ::
  "py_module \<Rightarrow> TopLevelItem list \<times> string list \<times> string option \<times> string option" where
  "extract_top_level_items tree =
     (let its = concat (map node_items (body tree));
          imports = concat (map node_imports (body tree));
          main_block = foldl node_main None (body tree);
          name_set = map name its
      in (map (set_deps name_set) its, imports, main_block, docstring tree))"

section \<open>Strongly connected components\<close>

text \<open>
  What the interpreter contributes to a run beyond the source: the number of nested
  \<open>strongconnect\<close> frames that fit under the recursion limit, \<open>str.lower\<close> (which is aware of
  Unicode), and the order in which a set of strings is iterated, which varies with the hash
  seed and with the history of the set: the elements of the dependency set \<open>A\<close> of the symbol
  \<open>v\<close> come in ascending \<open>set_rank v A\<close> (ties in string order).
\<close>

record runtime =
  frames :: nat
  str_lower :: "string \<Rightarrow> string"
  set_rank :: "string \<Rightarrow> string set \<Rightarrow> string \<Rightarrow> nat"

text \<open>\<open>for w in s\<close> for the dependency set \<open>s\<close> of the symbol \<open>v\<close>, with the elements \<open>ds\<close>.\<close>

definition iter_set :: "runtime \<Rightarrow> string \<Rightarrow> string list \<Rightarrow> string list" where
  "iter_set rt v ds = sort_key (set_rank rt v (set ds)) (sort (remdups ds))"

text \<open>
  \<open>graph: Dict[str, Set[str]]\<close> is an association list in insertion order; a successor set is
  the list of its elements in the order in which the interpreter iterates it.
\<close>

type_synonym graph = "(string \<times> string list) list"

text \<open>\<open>graph.get(v, set())\<close>\<close>

definition graph_get :: "graph \<Rightarrow> string \<Rightarrow> string list" where
  "graph_get g v = (case map_of g v of None \<Rightarrow> [] | Some ws \<Rightarrow> ws)"

text \<open>The variables of \<open>strongly_connected_components\<close> that \<open>strongconnect\<close> closes over.
  The head of \<open>stack\<close> is the top (the end of the Python list).\<close>

record tarjan_state =
  index :: nat
  indices :: "string \<rightharpoonup> nat"
  lowlink :: "string \<rightharpoonup> nat"
  stack :: "string list"
  onstack :: "string set"
  components :: "string list list"

text \<open>The loop \<open>while True: w = stack.pop(); onstack.remove(w); comp.append(w); if w == v: break\<close>.\<close>

fun pop_component ::
  "string \<Rightarrow> string list \<Rightarrow> string set \<Rightarrow> string list
     \<Rightarrow> error + (string list \<times> string list \<times> string set)" where
  "pop_component v [] os cmp = Inl IndexError"
| "pop_component v (w # stk) os cmp =
     (if w \<notin> os then Inl KeyError
      else if w = v then Inr (cmp @ [w], stk, os - {w})
      else pop_component v stk (os - {w}) (cmp @ [w]))"

text \<open>
  \<open>strongconnect\<close> is a nested recursive function of the source: one interpreter frame per
  level of the depth-first search. The first argument is the number of frames still
  available below the recursion limit; a call that finds none raises \<open>RecursionError\<close>.
  \<open>visit_edges\<close> is its loop \<open>for w in graph.get(v, set())\<close>.
\<close>

fun strongconnect :: "nat \<Rightarrow> graph \<Rightarrow> string \<Rightarrow> tarjan_state \<Rightarrow> error + tarjan_state"
  and visit_edges :: "nat \<Rightarrow> graph \<Rightarrow> string \<Rightarrow> string list \<Rightarrow> tarjan_state \<Rightarrow> error + tarjan_state"
  where
  "strongconnect 0 g v st = Inl RecursionError"
| "strongconnect (Suc d) g v st =
     (case visit_edges d g v (graph_get g v)
             (st\<lparr>index := index st + 1,
                 indices := (indices st)(v \<mapsto> index st),
                 lowlink := (lowlink st)(v \<mapsto> index st),
                 stack := v # stack st,
                 onstack := insert v (onstack st)\<rparr>) of
        Inl e \<Rightarrow> Inl e
      | Inr st2 \<Rightarrow>
          (case (lowlink st2 v, indices st2 v) of
             (Some l, Some i) \<Rightarrow>
               if l = i then
                 (case pop_component v (stack st2) (onstack st2) [] of
                    Inl e \<Rightarrow> Inl e
                  | Inr (cmp, stk, os) \<Rightarrow>
                      Inr (st2\<lparr>stack := stk, onstack := os,
                               components := components st2 @ [cmp]\<rparr>))
               else Inr st2
           | _ \<Rightarrow> Inl KeyError))"
| "visit_edges d g v [] st = Inr st"
| "visit_edges d g v (w # ws) st =
     (if indices st w = None then
        (case strongconnect d g w st of
           Inl e \<Rightarrow> Inl e
         | Inr st' \<Rightarrow>
             (case (lowlink st' v, lowlink st' w) of
                (Some lv, Some lw) \<Rightarrow>
                  visit_edges d g v ws (st'\<lparr>lowlink := (lowlink st')(v \<mapsto> min lv lw)\<rparr>)
              | _ \<Rightarrow> Inl KeyError))
      else if w \<in> onstack st then
        (case (lowlink st v, indices st w) of
           (Some lv, Some iw) \<Rightarrow>
             visit_edges d g v ws (st\<lparr>lowlink := (lowlink st)(v \<mapsto> min lv iw)\<rparr>)
         | _ \<Rightarrow> Inl KeyError)
      else visit_edges d g v ws st)"

text \<open>The loop \<open>for v in graph: if v not in indices: strongconnect(v)\<close>.\<close>

fun scc_loop :: "nat \<Rightarrow> graph \<Rightarrow> string list \<Rightarrow> tarjan_state \<Rightarrow> error + tarjan_state" where
  "scc_loop limit g [] st = Inr st"
| "scc_loop limit g (v # vs) st =
     (if indices st v = None then
        (case strongconnect limit g v st of
           Inl e \<Rightarrow> Inl e
         | Inr st' \<Rightarrow> scc_loop limit g vs st')
      else scc_loop limit g vs st)"

definition init_state :: tarjan_state where
  "init_state = \<lparr>index = 0, indices = Map.empty, lowlink = Map.empty, stack = [],
     onstack = {}, components = []\<rparr>"

text \<open>\<open>limit\<close>: the number of nested \<open>strongconnect\<close> frames that fit under
  \<open>sys.setrecursionlimit(max(10000, sys.getrecursionlimit()))\<close> at the point of the call.\<close>

definition strongly_connected_components :: "nat \<Rightarrow> graph \<Rightarrow> error + string list list" where
  "strongly_connected_components limit g =
     (case scc_loop limit g (map fst g) init_state of
        Inl e \<Rightarrow> Inl e
      | Inr st \<Rightarrow> Inr (components st))"

section \<open>Component construction\<close>

text \<open>A dict built by successive assignments \<open>d[k] = v\<close>: a key keeps its first position and
  takes its last value.\<close>

definition dict_of :: "('k \<times> 'v) list \<Rightarrow> ('k \<times> 'v) list" where
  "dict_of kvs = foldl (\<lambda>d kv. AList.update (fst kv) (snd kv) d) [] kvs"

text \<open>\<open>[item_by_name[n] for n in comp_names]\<close>\<close>

fun lookup_items :: "(string \<times> TopLevelItem) list \<Rightarrow> string list \<Rightarrow> error + TopLevelItem list" where
  "lookup_items ibn [] = Inr []"
| "lookup_items ibn (n # ns) =
     (case map_of ibn n of
        None \<Rightarrow> Inl KeyError
      | Some it \<Rightarrow>
          (case lookup_items ibn ns of Inl e \<Rightarrow> Inl e | Inr its \<Rightarrow> Inr (it # its)))"

text \<open>The body of the loop \<open>for comp_names in sccs\<close>. \<open>list.sort\<close> is stable, as \<open>sort_key\<close> is;
  the key \<open>x.name.lower()\<close> is \<open>str_lower\<close> of the runtime.\<close>

definition seed_component :: "runtime \<Rightarrow> TopLevelItem list \<Rightarrow> Component" where
  "seed_component rt comp_items =
     (let its = sort_key (\<lambda>x. str_lower rt (name x)) comp_items
      in \<lparr>names = map name its, items = its,
          module_name = module_name_for_component (map name its)\<rparr>)"

fun seed_components ::
  "runtime \<Rightarrow> (string \<times> TopLevelItem) list \<Rightarrow> string list list \<Rightarrow> error + Component list" where
  "seed_components rt ibn [] = Inr []"
| "seed_components rt ibn (comp_names # sccs) =
     (case lookup_items ibn comp_names of
        Inl e \<Rightarrow> Inl e
      | Inr comp_items \<Rightarrow>
          (case seed_components rt ibn sccs of
             Inl e \<Rightarrow> Inl e
           | Inr cs \<Rightarrow> Inr (seed_component rt comp_items # cs)))"

definition external_dep_count :: "graph \<Rightarrow> Component \<Rightarrow> nat" where
  "external_dep_count g c =
     length (remdups (filter (\<lambda>d. d \<notin> set (names c)) (concat (map (graph_get g) (names c)))))"

text \<open>\<open>graph = {it.name: set(it.deps) for it in items}\<close>\<close>

definition items_graph :: "runtime \<Rightarrow> TopLevelItem list \<Rightarrow> graph" where
  "items_graph rt its = dict_of (map (\<lambda>it. (name it, iter_set rt (name it) (deps it))) its)"

text \<open>\<open>item_by_name = {it.name: it for it in items}\<close>\<close>

definition item_by_name :: "TopLevelItem list \<Rightarrow> (string \<times> TopLevelItem) list" where
  "item_by_name its = dict_of (map (\<lambda>it. (name it, it)) its)"

text \<open>\<open>build_components\<close>. The \<open>name_to_module\<close> map that the source returns beside the
  components is replaced by \<open>repack_components\<close> before it is read, and is left out.\<close>

definition build_components :: "runtime \<Rightarrow> TopLevelItem list \<Rightarrow> error + Component list" where
  "build_components rt its =
     (let g = items_graph rt its
      in case strongly_connected_components (frames rt) g of
           Inl e \<Rightarrow> Inl e
         | Inr sccs \<Rightarrow>
             (case seed_components rt (item_by_name its) sccs of
                Inl e \<Rightarrow> Inl e
              | Inr cs \<Rightarrow> Inr (sort_key (external_dep_count g) cs)))"

section \<open>Re-pack\<close>

text \<open>\<open>str.splitlines\<close>: the line boundaries are LF, CR, CR LF, VT, FF, FS, GS, RS, and NEL, LS,
  PS in their UTF-8 encodings.\<close>

function splitlines_from :: "string \<Rightarrow> string \<Rightarrow> string list" where
  "splitlines_from cur [] = (if cur = [] then [] else [cur])"
| "splitlines_from cur (c # cs) =
     (if c = CHR 0x0D \<and> take 1 cs = [CHR 0x0A] then cur # splitlines_from [] (drop 1 cs)
      else if c \<in> set [CHR 0x0A, CHR 0x0D, CHR 0x0B, CHR 0x0C, CHR 0x1C, CHR 0x1D, CHR 0x1E]
        then cur # splitlines_from [] cs
      else if c = CHR 0xC2 \<and> take 1 cs = [CHR 0x85] then cur # splitlines_from [] (drop 1 cs)
      else if c = CHR 0xE2 \<and> (take 2 cs = [CHR 0x80, CHR 0xA8] \<or> take 2 cs = [CHR 0x80, CHR 0xA9])
        then cur # splitlines_from [] (drop 2 cs)
      else splitlines_from (cur @ [c]) cs)"
  by pat_completeness auto
termination
  by (relation "measure (\<lambda>(cur, s). length s)") auto

definition splitlines :: "string \<Rightarrow> string list" where
  "splitlines s = splitlines_from [] s"

definition item_lines :: "TopLevelItem \<Rightarrow> nat" where
  "item_lines it = (if source it \<noteq> [] then length (splitlines (source it)) else 0)"

definition comp_lines :: "Component \<Rightarrow> nat" where
  "comp_lines c = sum_list (map item_lines (items c))"

definition assign_only :: "Component \<Rightarrow> bool" where
  "assign_only c = list_all (\<lambda>it. kind it = ''assign'') (items c)"

definition merge_components :: "Component \<Rightarrow> Component \<Rightarrow> string option \<Rightarrow> Component" where
  "merge_components a b new_name =
     (let nms = names a @ names b;
          its = items a @ items b;
          mod_name = (case new_name of
                        Some n \<Rightarrow> if n \<noteq> [] then n else module_name_for_component nms
                      | None \<Rightarrow> module_name_for_component nms)
      in \<lparr>names = nms, items = its, module_name = mod_name\<rparr>)"

definition rebuild_name_to_module :: "Component list \<Rightarrow> (string \<rightharpoonup> string)" where
  "rebuild_name_to_module cs =
     foldl (\<lambda>m c. foldl (\<lambda>m it. m(name it \<mapsto> module_name c)) m (items c)) Map.empty cs"

record config =
  group_assignments :: bool
  pack_small_lines :: int
  max_modules :: int
  min_module_lines :: int
  target_modules :: "int option"

text \<open>Step 1: \<open>merged = assign_comps[0]; for c in assign_comps[1:]: merged = merge_components(merged, c)\<close>\<close>

definition group_assignments_step :: "Component list \<Rightarrow> Component list" where
  "group_assignments_step comps =
     (let assign_comps = filter assign_only comps
      in if length assign_comps > 1
         then filter (\<lambda>c. c \<notin> set assign_comps) comps
              @ [(foldl (\<lambda>m c. merge_components m c None) (hd assign_comps) (tl assign_comps))
                   \<lparr>module_name := ''constants''\<rparr>]
         else comps)"

text \<open>Step 2\<close>

definition pack_small_step :: "int \<Rightarrow> Component list \<Rightarrow> Component list" where
  "pack_small_step threshold comps =
     (let small = filter (\<lambda>c. int (comp_lines c) < threshold \<and> \<not> assign_only c) comps
      in if length small > 1
         then filter (\<lambda>c. c \<notin> set small) comps
              @ [(foldl (\<lambda>m c. merge_components m c None) (hd small) (tl small))
                   \<lparr>module_name := ''core''\<rparr>]
         else comps)"

definition pinned :: "string list" where
  "pinned = [''constants'', ''core'']"

text \<open>\<open>merge_smallest_once\<close>: \<open>None\<close> for the result \<open>False\<close>, otherwise the new value of
  \<open>comps\<close>. Components of one run have disjoint, non-empty name lists, so \<open>==\<close> (the
  \<open>not in\<close> tests) and \<open>is\<close> agree on them.\<close>

definition merge_smallest_once :: "Component list \<Rightarrow> Component list option" where
  "merge_smallest_once comps =
     (let movable = filter (\<lambda>c. module_name c \<notin> set pinned) comps
      in if length movable < 2 then None
         else (let sorted_movable = sort_key comp_lines movable;
                   a = sorted_movable ! 0;
                   b = sorted_movable ! 1
               in Some (filter (\<lambda>c. c \<noteq> a \<and> c \<noteq> b) comps @ [merge_components a b None])))"

text \<open>The loops of steps 3 and 4: \<open>while len(comps) > n: if not merge_smallest_once(): break\<close>.\<close>

function merge_down_to :: "int \<Rightarrow> Component list \<Rightarrow> Component list" where
  "merge_down_to n comps =
     (if int (length comps) > n
      then (case merge_smallest_once comps of
              None \<Rightarrow> comps
            | Some comps' \<Rightarrow> merge_down_to n comps')
      else comps)"
  by pat_completeness auto
termination
proof (relation "measure (\<lambda>(n, comps). length comps)")
  show "wf (measure (\<lambda>(n, comps). length comps))" by simp
next
  fix n :: int and comps comps' :: "Component list"
  assume some: "merge_smallest_once comps = Some comps'"
  define movable where "movable = filter (\<lambda>c. module_name c \<notin> set pinned) comps"
  define srt where "srt = sort_key comp_lines movable"
  have len: "\<not> length movable < 2"
    using some by (auto simp: merge_smallest_once_def movable_def Let_def split: if_splits)
  then have "length srt \<ge> 2" by (simp add: srt_def)
  then obtain a b rest where srt: "srt = a # b # rest"
    by (cases srt; cases "tl srt") auto
  have c': "comps' = filter (\<lambda>c. c \<noteq> a \<and> c \<noteq> b) comps @ [merge_components a b None]"
    using some len srt
    by (auto simp: merge_smallest_once_def movable_def[symmetric] srt_def[symmetric] Let_def)
  have "mset srt \<subseteq># mset comps"
    by (simp add: srt_def movable_def)
  then obtain N where N: "mset comps = {#a, b#} + N"
    unfolding srt by (auto simp: mset_subset_eq_exists_conv)
  have "size (filter_mset (\<lambda>c. c \<noteq> a \<and> c \<noteq> b) (mset comps)) \<le> size N"
    unfolding N by (simp add: size_filter_mset_lesseq)
  moreover have "size (mset comps) = size N + 2" unfolding N by simp
  ultimately have "length (filter (\<lambda>c. c \<noteq> a \<and> c \<noteq> b) comps) + 2 \<le> length comps"
    by (metis mset_filter size_mset add_le_cancel_right)
  then have "length comps' < length comps" by (simp add: c')
  then show "((n, comps'), (n, comps)) \<in> measure (\<lambda>(n, comps). length comps)" by simp
qed

declare merge_down_to.simps [simp del]

text \<open>
  Step 3.5, one round of \<open>while changed\<close>: the \<open>for\<close> loop leaves at its first element, with
  a merge or (no other movable component) without one.
\<close>

function min_lines_loop :: "int \<Rightarrow> Component list \<Rightarrow> Component list" where
  "min_lines_loop min_lines comps =
     (case sort_key comp_lines
             (filter (\<lambda>c. int (comp_lines c) < min_lines \<and> module_name c \<notin> set pinned) comps) of
        [] \<Rightarrow> comps
      | s # _ \<Rightarrow>
          (case sort_key comp_lines
                  (filter (\<lambda>c. c \<noteq> s \<and> module_name c \<notin> set pinned) comps) of
             [] \<Rightarrow> comps
           | other # _ \<Rightarrow>
               min_lines_loop min_lines
                 (filter (\<lambda>c. c \<noteq> s \<and> c \<noteq> other) comps @ [merge_components s other None])))"
  by pat_completeness auto
termination
proof (relation "measure (\<lambda>(n, comps). length comps)")
  show "wf (measure (\<lambda>(n, comps). length comps))" by simp
next
  fix min_lines :: int and comps :: "Component list" and s other :: Component
    and r1 r2 :: "Component list"
  assume s: "sort_key comp_lines
      (filter (\<lambda>c. int (comp_lines c) < min_lines \<and> module_name c \<notin> set pinned) comps) = s # r1"
    and ot: "sort_key comp_lines
      (filter (\<lambda>c. c \<noteq> s \<and> module_name c \<notin> set pinned) comps) = other # r2"
  have "s \<in> set (sort_key comp_lines
      (filter (\<lambda>c. int (comp_lines c) < min_lines \<and> module_name c \<notin> set pinned) comps))"
    unfolding s by simp
  then have s_in: "s \<in> set comps" by simp
  have "other \<in> set (sort_key comp_lines
      (filter (\<lambda>c. c \<noteq> s \<and> module_name c \<notin> set pinned) comps))"
    unfolding ot by simp
  then have o_in: "other \<in> set comps" and ne: "other \<noteq> s" by simp_all
  have "{#s, other#} \<subseteq># mset comps"
  proof -
    have "other \<in># mset comps - {#s#}" using o_in ne by (simp add: in_diff_count)
    moreover have "s \<in># mset comps" using s_in by simp
    ultimately show ?thesis
      by (metis add_mset_add_single insert_DiffM mset_subset_eq_add_mset_cancel
          single_subset_iff union_commute)
  qed
  then obtain N where N: "mset comps = {#s, other#} + N"
    by (auto simp: mset_subset_eq_exists_conv)
  have "size (filter_mset (\<lambda>c. c \<noteq> s \<and> c \<noteq> other) (mset comps)) \<le> size N"
    unfolding N by (simp add: size_filter_mset_lesseq)
  moreover have "size (mset comps) = size N + 2" unfolding N by simp
  ultimately have "length (filter (\<lambda>c. c \<noteq> s \<and> c \<noteq> other) comps) + 2 \<le> length comps"
    by (metis mset_filter size_mset add_le_cancel_right)
  then show "((min_lines, filter (\<lambda>c. c \<noteq> s \<and> c \<noteq> other) comps @ [merge_components s other None]),
      (min_lines, comps)) \<in> measure (\<lambda>(n, comps). length comps)" by simp
qed

declare min_lines_loop.simps [simp del]

text \<open>\<open>repack_components\<close>; \<open>base_file_stem\<close> and the incoming \<open>name_to_module\<close> are not read.\<close>

definition repack_comps :: "config \<Rightarrow> Component list \<Rightarrow> Component list" where
  "repack_comps cfg components0 =
     (let comps1 = (if group_assignments cfg then group_assignments_step components0
                    else components0);
          comps2 = (if pack_small_lines cfg \<noteq> 0 \<and> pack_small_lines cfg > 0
                    then pack_small_step (pack_small_lines cfg) comps1 else comps1);
          comps3 = (if max_modules cfg \<noteq> 0 then merge_down_to (max_modules cfg) comps2
                    else comps2);
          comps4 = (if min_module_lines cfg \<noteq> 0 \<and> min_module_lines cfg > 0
                    then min_lines_loop (min_module_lines cfg) comps3 else comps3)
      in (case target_modules cfg of
            None \<Rightarrow> comps4
          | Some t \<Rightarrow> if t > 0 then merge_down_to t comps4 else comps4))"

definition repack_components ::
  "config \<Rightarrow> Component list \<Rightarrow> Component list \<times> (string \<rightharpoonup> string)" where
  "repack_components cfg components0 =
     (let comps = repack_comps cfg components0 in (comps, rebuild_name_to_module comps))"

section \<open>Renderers\<close>

text \<open>\<open>HEADER\<close>; the dash is U+2014 in UTF-8.\<close>

definition HEADER :: string where
  "HEADER = ''# Generated by autoparts.py '' @ [CHR 0xE2, CHR 0x80, CHR 0x94]
     @ '' DO NOT EDIT BY HAND'' @ [CHR 0x0A]"

text \<open>\<open>_dedup_imports\<close>, with the set \<open>seen\<close> as a list.\<close>

fun dedup_imports_from :: "string list \<Rightarrow> string list \<Rightarrow> string list" where
  "dedup_imports_from seen [] = []"
| "dedup_imports_from seen (line # ls) =
     (let key = py_strip line
      in if key \<noteq> [] \<and> key \<notin> set seen then key # dedup_imports_from (key # seen) ls
         else dedup_imports_from seen ls)"

definition dedup_imports :: "string list \<Rightarrow> string list" where
  "dedup_imports imports = dedup_imports_from [] imports"

text \<open>\<open>repr\<close> of a name: identifiers hold no quote, backslash or control character.\<close>

definition py_repr :: "string \<Rightarrow> string" where
  "py_repr n = [CHR 0x27] @ n @ [CHR 0x27]"

text \<open>The pairs \<open>(mod, dep)\<close> that \<open>render_module\<close> collects in \<open>external_deps\<close>. The order in
  which the set \<open>it.deps\<close> is iterated does not reach the text: the modules and the names of
  each module are sorted, and duplicates removed, before a line is written.\<close>

definition external_deps :: "Component \<Rightarrow> (string \<rightharpoonup> string) \<Rightarrow> (string \<times> string) list" where
  "external_deps component name_to_module =
     concat (map (\<lambda>it. concat (map (\<lambda>dep.
         if dep \<notin> set (names component)
         then (case name_to_module dep of
                 Some m \<Rightarrow> if m \<noteq> [] then [(m, dep)] else []
               | None \<Rightarrow> [])
         else []) (deps it))) (items component))"

definition import_line :: "string \<Rightarrow> string list \<Rightarrow> string" where
  "import_line m nms = ''from .'' @ m @ '' import '' @ join '', '' nms"

text \<open>The modules that the rendered text of a component imports from, in the order of
  their lines.\<close>

definition imported_modules :: "Component \<Rightarrow> (string \<rightharpoonup> string) \<Rightarrow> string list" where
  "imported_modules component name_to_module =
     sort (remdups (map fst (external_deps component name_to_module)))"

definition package_import_lines :: "Component \<Rightarrow> (string \<rightharpoonup> string) \<Rightarrow> string list" where
  "package_import_lines component name_to_module =
     map (\<lambda>m. import_line m
            (sort (remdups (map snd (filter (\<lambda>p. fst p = m)
               (external_deps component name_to_module))))))
       (imported_modules component name_to_module)"

definition source_blocks :: "Component \<Rightarrow> string list" where
  "source_blocks component = map (\<lambda>it. py_rstrip (source it)) (items component)"

definition all_line :: "string list \<Rightarrow> string" where
  "all_line nms = ''__all__ = ['' @ join '', '' (map py_repr nms) @ '']''"

text \<open>The list \<open>lines\<close> of \<open>render_module\<close> before \<open>"\n".join(lines)\<close>.\<close>

definition render_module_lines ::
  "Component \<Rightarrow> string list \<Rightarrow> (string \<rightharpoonup> string) \<Rightarrow> string list" where
  "render_module_lines component all_imports name_to_module =
     [HEADER]
     @ (let dedup_imps = dedup_imports all_imports
        in if dedup_imps \<noteq> [] then dedup_imps @ [''''] else [])
     @ package_import_lines component name_to_module
     @ (if external_deps component name_to_module \<noteq> [] then [''''] else [])
     @ concat (map (\<lambda>src. [src, '''']) (source_blocks component))
     @ [all_line (names component), '''']"

definition render_module :: "Component \<Rightarrow> string list \<Rightarrow> (string \<rightharpoonup> string) \<Rightarrow> string" where
  "render_module component all_imports name_to_module =
     join [CHR 0x0A] (render_module_lines component all_imports name_to_module)"

text \<open>\<open>all_names\<close> of \<open>render_init\<close>.\<close>

definition init_all_names :: "Component list \<Rightarrow> string list" where
  "init_all_names comps =
     concat (map (\<lambda>c. if join '', '' (names c) \<noteq> [] then names c else []) comps)"

definition init_exports :: "Component list \<Rightarrow> string list" where
  "init_exports comps = sort (remdups (init_all_names comps))"

definition render_init_lines :: "Component list \<Rightarrow> string option \<Rightarrow> string list" where
  "render_init_lines comps pkg_doc =
     [HEADER]
     @ (case pkg_doc of
          None \<Rightarrow> []
        | Some d \<Rightarrow> if d \<noteq> []
            then [[CHR 0x22, CHR 0x22, CHR 0x22], py_strip d,
                  [CHR 0x22, CHR 0x22, CHR 0x22], '''']
            else [])
     @ concat (map (\<lambda>c. if join '', '' (names c) \<noteq> []
                         then [import_line (module_name c) (names c)] else []) comps)
     @ ['''', all_line (init_exports comps), '''']"

definition render_init :: "Component list \<Rightarrow> string option \<Rightarrow> string" where
  "render_init comps pkg_doc = join [CHR 0x0A] (render_init_lines comps pkg_doc)"

section \<open>Single-file processing\<close>

text \<open>The loop \<open>for comp in components: comp.module_name = ensure_unique_module_name(...)\<close>.\<close>

fun unique_module_names :: "Component list \<Rightarrow> string list \<Rightarrow> Component list" where
  "unique_module_names [] used = []"
| "unique_module_names (c # cs) used =
     (case ensure_unique_module_name (module_name c) used of
        (nm, used') \<Rightarrow> c\<lparr>module_name := nm\<rparr> # unique_module_names cs used')"

text \<open>
  The planning half of \<open>plan_and_write_single\<close>, from the parsed tree to the final
  components (after the collision guard) and the map \<open>name_to_module\<close> that
  \<open>repack_components\<close> returned. \<open>None\<close>: no top-level definitions, nothing is written.
\<close>

definition plan ::
  "runtime \<Rightarrow> config \<Rightarrow> py_module
     \<Rightarrow> error + (Component list \<times> (string \<rightharpoonup> string) \<times> string list \<times> string option) option" where
  "plan rt cfg tree =
     (case extract_top_level_items tree of
        (its, imports, main_block, mod_doc) \<Rightarrow>
          if its = [] then Inr None
          else (case build_components rt its of
                  Inl e \<Rightarrow> Inl e
                | Inr components0 \<Rightarrow>
                    (case repack_components cfg components0 of
                       (comps, name_to_module) \<Rightarrow>
                         Inr (Some (unique_module_names comps [], name_to_module,
                                    imports, mod_doc)))))"

text \<open>
  The artifacts that \<open>plan_and_write_single\<close> writes: the \<open>(module name, text)\<close> pairs and the
  text of \<open>__init__.py\<close>. (\<open>__main__.py\<close> and the package name are not modelled.)
\<close>

definition plan_and_write_single ::
  "runtime \<Rightarrow> config \<Rightarrow> py_module \<Rightarrow> error + ((string \<times> string) list \<times> string) option" where
  "plan_and_write_single rt cfg tree =
     (case plan rt cfg tree of
        Inl e \<Rightarrow> Inl e
      | Inr None \<Rightarrow> Inr None
      | Inr (Some (comps, name_to_module, imports, mod_doc)) \<Rightarrow>
          Inr (Some (map (\<lambda>c. (module_name c, render_module c imports name_to_module)) comps,
                     render_init comps mod_doc)))"

section \<open>Specification vocabulary for the component search\<close>

definition visited :: "tarjan_state \<Rightarrow> string set" where
  "visited st = dom (indices st)"

text \<open>\<open>indices[x]\<close> and \<open>lowlink[x]\<close> of a visited node.\<close>

definition idx :: "tarjan_state \<Rightarrow> string \<Rightarrow> nat" where
  "idx st x = (case indices st x of Some i \<Rightarrow> i | None \<Rightarrow> 0)"

definition low :: "tarjan_state \<Rightarrow> string \<Rightarrow> nat" where
  "low st x = (case lowlink st x of Some i \<Rightarrow> i | None \<Rightarrow> 0)"

definition succs :: "graph \<Rightarrow> string \<Rightarrow> string set" where
  "succs g v = set (graph_get g v)"

text \<open>The keys of the graph and every name in the successor set of a key.\<close>

definition nodes :: "graph \<Rightarrow> string set" where
  "nodes g = set (map fst g) \<union> set (concat (map (graph_get g) (map fst g)))"

definition dep_edges :: "graph \<Rightarrow> (string \<times> string) set" where
  "dep_edges g = {(x, y). y \<in> succs g x}"

text \<open>\<open>a\<close> transitively depends on \<open>b\<close> (in zero or more steps).\<close>

definition depends_on :: "graph \<Rightarrow> string \<Rightarrow> string \<Rightarrow> bool" where
  "depends_on g a b = ((a, b) \<in> (dep_edges g)\<^sup>*)"

definition succ_closed :: "graph \<Rightarrow> string set \<Rightarrow> bool" where
  "succ_closed g A = (\<forall>x \<in> A. succs g x \<subseteq> A)"

definition tinv :: "graph \<Rightarrow> tarjan_state \<Rightarrow> bool" where
  "tinv g st =
     (dom (lowlink st) = visited st \<and> onstack st = set (stack st) \<and> distinct (stack st)
      \<and> set (stack st) \<subseteq> visited st \<and> (\<forall>x \<in> visited st. idx st x < index st)
      \<and> visited st \<subseteq> nodes g
      \<and> set (concat (components st)) = visited st - set (stack st)
      \<and> distinct (concat (components st))
      \<and> (\<forall>k \<le> length (components st). succ_closed g (set (concat (take k (components st)))))
      \<and> [] \<notin> set (components st))"

definition frame :: "tarjan_state \<Rightarrow> tarjan_state \<Rightarrow> string set \<Rightarrow> bool" where
  "frame st st' exc =
     (indices st \<subseteq>\<^sub>m indices st' \<and> index st \<le> index st'
      \<and> (\<forall>x \<in> visited st - exc. lowlink st' x = lowlink st x)
      \<and> (\<forall>x \<in> visited st' - visited st. index st \<le> idx st' x))"

definition edge_ok :: "tarjan_state \<Rightarrow> nat \<Rightarrow> string \<Rightarrow> bool" where
  "edge_ok st lv w = (w \<in> visited st \<and> (w \<in> set (stack st) \<longrightarrow> lv \<le> idx st w))"

definition loop_inv :: "graph \<Rightarrow> string \<Rightarrow> string list \<Rightarrow> string set \<Rightarrow> tarjan_state \<Rightarrow> bool" where
  "loop_inv g v S0 dn st =
     (tinv g st \<and> v \<in> visited st
      \<and> (\<exists>new. stack st = new @ v # S0
            \<and> (\<forall>x \<in> set new. idx st v < idx st x)
            \<and> (\<forall>x \<in> set new. \<forall>w \<in> succs g x. edge_ok st (low st v) w))
      \<and> low st v \<le> idx st v
      \<and> (\<forall>y \<in> set S0. idx st y < idx st v)
      \<and> (low st v = idx st v \<or> (\<exists>y \<in> set S0. idx st y \<le> low st v))
      \<and> (\<forall>w \<in> dn. edge_ok st (low st v) w))"

definition sc_post :: "graph \<Rightarrow> string \<Rightarrow> tarjan_state \<Rightarrow> tarjan_state \<Rightarrow> bool" where
  "sc_post g v st st' =
     (tinv g st' \<and> frame st st' {} \<and> v \<in> visited st' \<and> idx st' v = index st
      \<and> low st' v \<le> index st
      \<and> (index st \<le> low st' v \<or> (\<exists>y \<in> set (stack st). idx st y \<le> low st' v))
      \<and> (\<exists>new. stack st' = new @ stack st \<and> set new \<inter> visited st = {}
            \<and> (new \<noteq> [] \<longrightarrow> last new = v \<and> low st' v < index st)
            \<and> (\<forall>x \<in> set new. \<forall>w \<in> succs g x. edge_ok st' (low st' v) w)))"

text \<open>The state after the first five statements of \<open>strongconnect(v)\<close>.\<close>

definition push :: "string \<Rightarrow> tarjan_state \<Rightarrow> tarjan_state" where
  "push v st = st\<lparr>index := index st + 1,
                 indices := (indices st)(v \<mapsto> index st),
                 lowlink := (lowlink st)(v \<mapsto> index st),
                 stack := v # stack st,
                 onstack := insert v (onstack st)\<rparr>"

definition set_low :: "string \<Rightarrow> nat \<Rightarrow> tarjan_state \<Rightarrow> tarjan_state" where
  "set_low v n st = st\<lparr>lowlink := (lowlink st)(v \<mapsto> n)\<rparr>"

definition popped_state :: "string list \<Rightarrow> string list \<Rightarrow> tarjan_state \<Rightarrow> tarjan_state" where
  "popped_state cmp S0 st = st\<lparr>stack := S0, onstack := onstack st - set cmp,
     components := components st @ [cmp]\<rparr>"

text \<open>The tail of \<open>strongconnect\<close>, after the loop over the successors.\<close>

definition finish :: "string \<Rightarrow> tarjan_state \<Rightarrow> error + tarjan_state" where
  "finish v st2 =
     (case (lowlink st2 v, indices st2 v) of
        (Some l, Some i) \<Rightarrow>
          if l = i then
            (case pop_component v (stack st2) (onstack st2) [] of
               Inl e \<Rightarrow> Inl e
             | Inr (cmp, stk, os) \<Rightarrow>
                 Inr (st2\<lparr>stack := stk, onstack := os,
                          components := components st2 @ [cmp]\<rparr>))
          else Inr st2
      | _ \<Rightarrow> Inl KeyError)"

definition sc_spec :: "nat \<Rightarrow> graph \<Rightarrow> string \<Rightarrow> tarjan_state \<Rightarrow> bool" where
  "sc_spec d g v st =
     (tinv g st \<longrightarrow> v \<notin> visited st \<longrightarrow> v \<in> nodes g \<longrightarrow> card (nodes g - visited st) \<le> d
      \<longrightarrow> (\<exists>st'. strongconnect d g v st = Inr st' \<and> sc_post g v st st'))"

definition ve_spec :: "nat \<Rightarrow> graph \<Rightarrow> string \<Rightarrow> string list \<Rightarrow> tarjan_state \<Rightarrow> bool" where
  "ve_spec d g v ws st =
     (\<forall>S0 dn. loop_inv g v S0 dn st \<longrightarrow> set ws \<subseteq> succs g v
        \<longrightarrow> card (nodes g - visited st) \<le> d
        \<longrightarrow> (\<exists>st'. visit_edges d g v ws st = Inr st' \<and> loop_inv g v S0 (dn \<union> set ws) st'
               \<and> frame st st' {v}))"

text \<open>The same specifications for the runs that return, whatever the recursion limit.\<close>

definition sc_part :: "nat \<Rightarrow> graph \<Rightarrow> string \<Rightarrow> tarjan_state \<Rightarrow> bool" where
  "sc_part d g v st =
     (tinv g st \<longrightarrow> v \<notin> visited st \<longrightarrow> v \<in> nodes g
      \<longrightarrow> (\<forall>st'. strongconnect d g v st = Inr st' \<longrightarrow> sc_post g v st st'))"

definition ve_part :: "nat \<Rightarrow> graph \<Rightarrow> string \<Rightarrow> string list \<Rightarrow> tarjan_state \<Rightarrow> bool" where
  "ve_part d g v ws st =
     (\<forall>S0 dn st'. loop_inv g v S0 dn st \<longrightarrow> set ws \<subseteq> succs g v
        \<longrightarrow> visit_edges d g v ws st = Inr st'
        \<longrightarrow> loop_inv g v S0 (dn \<union> set ws) st' \<and> frame st st' {v})"

text \<open>What the component search returns.\<close>

definition scc_result :: "graph \<Rightarrow> string list list \<Rightarrow> bool" where
  "scc_result g sccs =
     (set (concat sccs) = nodes g \<and> distinct (concat sccs) \<and> [] \<notin> set sccs
      \<and> (\<forall>k \<le> length sccs. succ_closed g (set (concat (take k sccs)))))"

text \<open>
  The dependency graph of a file of \<open>n\<close> functions \<open>f\<close>, \<open>ff\<close>, \<open>fff\<close>, ... in which each
  function calls the next one.
\<close>

definition chain_node :: "nat \<Rightarrow> string" where
  "chain_node i = replicate (Suc i) CHR ''f''"

definition chain_graph :: "nat \<Rightarrow> graph" where
  "chain_graph n =
     map (\<lambda>i. (chain_node i, if Suc i < n then [chain_node (Suc i)] else [])) [0..<n]"

section \<open>Specification vocabulary for packing\<close>

text \<open>Two symbols live in one component.\<close>

definition together :: "Component list \<Rightarrow> string \<Rightarrow> string \<Rightarrow> bool" where
  "together comps a b = list_ex (\<lambda>c. a \<in> set (names c) \<and> b \<in> set (names c)) comps"

definition all_names :: "Component list \<Rightarrow> string list" where
  "all_names comps = concat (map names comps)"

definition all_items :: "Component list \<Rightarrow> TopLevelItem list" where
  "all_items comps = concat (map items comps)"

text \<open>The components of one run: no symbol twice, no empty component, and the name list of
  a component is the list of the names of its items.\<close>

definition comps_inv :: "Component list \<Rightarrow> bool" where
  "comps_inv comps =
     (distinct (all_names comps)
      \<and> list_all (\<lambda>c. names c \<noteq> [] \<and> names c = map name (items c)) comps)"

text \<open>\<open>comps'\<close> is a coarsening of \<open>comps\<close>: the same symbols and items, and symbols that were
  together stay together.\<close>

definition coarsens :: "Component list \<Rightarrow> Component list \<Rightarrow> bool" where
  "coarsens comps comps' =
     (comps_inv comps' \<and> mset (all_names comps') = mset (all_names comps)
      \<and> mset (all_items comps') = mset (all_items comps)
      \<and> (\<forall>a b. together comps a b \<longrightarrow> together comps' a b))"

text \<open>The items that \<open>item_by_name\<close> holds: of the items of one name, the last.\<close>

definition kept_items :: "TopLevelItem list \<Rightarrow> TopLevelItem list" where
  "kept_items its = map snd (item_by_name its)"

text \<open>Every dependency of an item is the name of an item.\<close>

definition deps_closed :: "TopLevelItem list \<Rightarrow> bool" where
  "deps_closed its = list_all (\<lambda>it. list_all (\<lambda>d. d \<in> set (map name its)) (deps it)) its"

text \<open>The top-level symbols of a file, in the order of their items, and its dependency
  graph.\<close>

definition symbols :: "py_module \<Rightarrow> string list" where
  "symbols tree = map name (fst (extract_top_level_items tree))"

definition dependency_graph :: "runtime \<Rightarrow> py_module \<Rightarrow> graph" where
  "dependency_graph rt tree = items_graph rt (fst (extract_top_level_items tree))"

text \<open>A partition of the symbols of \<open>its\<close> into components whose items are those that
  \<open>item_by_name\<close> holds.\<close>

definition built :: "TopLevelItem list \<Rightarrow> Component list \<Rightarrow> bool" where
  "built its comps =
     (comps_inv comps \<and> set (all_names comps) = set (map name its)
      \<and> list_all (\<lambda>it. map_of (item_by_name its) (name it) = Some it) (all_items comps))"

text \<open>A seed component and the names of its strongly connected component.\<close>

definition seeded :: "runtime \<Rightarrow> TopLevelItem list \<Rightarrow> string list \<Rightarrow> Component \<Rightarrow> bool" where
  "seeded rt its s c =
     (mset (names c) = mset s \<and> names c = map name (items c)
      \<and> list_all (\<lambda>it. map_of (item_by_name its) (name it) = Some it) (items c)
      \<and> sorted (map (\<lambda>it. str_lower rt (name it)) (items c)))"

text \<open>The final components of a run (none when the file has no top-level definitions).\<close>

definition planned_components :: "runtime \<Rightarrow> config \<Rightarrow> py_module \<Rightarrow> error + Component list" where
  "planned_components rt cfg tree =
     (case plan rt cfg tree of
        Inl e \<Rightarrow> Inl e
      | Inr None \<Rightarrow> Inr []
      | Inr (Some (comps, name_to_module, imports, mod_doc)) \<Rightarrow> Inr comps)"

text \<open>The components that enter step 2 of \<open>repack_components\<close>, its list \<open>small\<close>, and the
  component \<open>core\<close> that it builds from a list \<open>small\<close> of more than one component.\<close>

definition after_grouping :: "config \<Rightarrow> Component list \<Rightarrow> Component list" where
  "after_grouping cfg comps =
     (if group_assignments cfg then group_assignments_step comps else comps)"

definition small_components :: "config \<Rightarrow> Component list \<Rightarrow> Component list" where
  "small_components cfg comps =
     filter (\<lambda>c. int (comp_lines c) < pack_small_lines cfg \<and> \<not> assign_only c) comps"

definition core_component :: "Component list \<Rightarrow> Component" where
  "core_component small =
     (foldl (\<lambda>m c. merge_components m c None) (hd small) (tl small))\<lparr>module_name := ''core''\<rparr>"

text \<open>The item list of \<open>c\<close> is the concatenation of the item lists of components of
  \<open>comps0\<close>.\<close>

definition from_seeds :: "Component list \<Rightarrow> Component \<Rightarrow> bool" where
  "from_seeds comps0 c =
     (\<exists>cs. cs \<noteq> [] \<and> set cs \<subseteq> set comps0 \<and> items c = concat (map items cs))"




section \<open>Views of a plan and example files\<close>

text \<open>The split plan as \<open>plan_and_write_single\<close> prints it: module name, symbols and line
  count of every final component.\<close>

definition layout :: "runtime \<Rightarrow> config \<Rightarrow> py_module \<Rightarrow> error + (string \<times> string list \<times> nat) list" where
  "layout rt cfg tree =
     (case planned_components rt cfg tree of
        Inl e \<Rightarrow> Inl e
      | Inr comps \<Rightarrow> Inr (map (\<lambda>c. (module_name c, names c, comp_lines c)) comps))"

text \<open>The source blocks of all rendered modules, in the order of the modules.\<close>

definition rendered_blocks :: "runtime \<Rightarrow> config \<Rightarrow> py_module \<Rightarrow> error + string list" where
  "rendered_blocks rt cfg tree =
     (case planned_components rt cfg tree of
        Inl e \<Rightarrow> Inl e
      | Inr comps \<Rightarrow> Inr (concat (map source_blocks comps)))"

text \<open>A runtime for the example files: ten frames, sets iterated in string order; the
  identifiers of the examples are ASCII, where \<open>str.lower\<close> is \<open>lower\<close>.\<close>

definition example_runtime :: runtime where
  "example_runtime = \<lparr>frames = 10, str_lower = lower, set_rank = (\<lambda>v A x. 0)\<rparr>"

text \<open>The components that \<open>build_components\<close> returns for a file (none when it raises).\<close>

definition seed_components_of :: "runtime \<Rightarrow> py_module \<Rightarrow> Component list" where
  "seed_components_of rt tree =
     (case build_components rt (fst (extract_top_level_items tree)) of
        Inl e \<Rightarrow> []
      | Inr comps \<Rightarrow> comps)"

text \<open>The defaults of the command line.\<close>

definition default_config :: config where
  "default_config = \<lparr>group_assignments = True, pack_small_lines = 40, max_modules = 12,
     min_module_lines = 0, target_modules = None\<rparr>"

text \<open>\<^verbatim>\<open>Y = 1\<close>, \<^verbatim>\<open>def f(): return Y\<close>, \<^verbatim>\<open>X = f()\<close>\<close>

definition constants_cycle_file :: py_module where
  "constants_cycle_file = \<lparr>body =
     [Assign [Name ''Y''] ''Y = 1'' [],
      FunctionDef ''f'' ''def f(): return Y'' [''Y''],
      Assign [Name ''X''] ''X = f()'' [''f'']],
     docstring = None\<rparr>"

text \<open>\<^verbatim>\<open>def foo(): return 1\<close>, \<^verbatim>\<open>class Foo: x = foo()\<close>, \<^verbatim>\<open>def user(): return Foo()\<close>\<close>

definition name_collision_file :: py_module where
  "name_collision_file = \<lparr>body =
     [FunctionDef ''foo'' ''def foo(): return 1'' [],
      ClassDef ''Foo'' ''class Foo: x = foo()'' [''foo''],
      FunctionDef ''user'' ''def user(): return Foo()'' [''Foo'']],
     docstring = None\<rparr>"

text \<open>\<^verbatim>\<open>a = b = 1\<close>\<close>

definition compound_assignment_file :: py_module where
  "compound_assignment_file = \<lparr>body =
     [Assign [Name ''a'', Name ''b''] ''a = b = 1'' []],
     docstring = None\<rparr>"

text \<open>\<^verbatim>\<open>def f(): return g()\<close>, \<^verbatim>\<open>def g(): return 1\<close>\<close>

definition caller_first_file :: py_module where
  "caller_first_file = \<lparr>body =
     [FunctionDef ''f'' ''def f(): return g()'' [''g''],
      FunctionDef ''g'' ''def g(): return 1'' []],
     docstring = None\<rparr>"

text \<open>\<^verbatim>\<open>def b(): return a()\<close>, \<^verbatim>\<open>def a(): return b()\<close>\<close>

definition reversed_pair_file :: py_module where
  "reversed_pair_file = \<lparr>body =
     [FunctionDef ''b'' ''def b(): return a()'' [''a''],
      FunctionDef ''a'' ''def a(): return b()'' [''b'']],
     docstring = None\<rparr>"

text \<open>\<^verbatim>\<open>X = 1\<close>, \<^verbatim>\<open>def f(): return 1\<close>, \<^verbatim>\<open>def g(): return 2\<close>\<close>

definition lone_constant_file :: py_module where
  "lone_constant_file = \<lparr>body =
     [Assign [Name ''X''] ''X = 1'' [],
      FunctionDef ''f'' ''def f(): return 1'' [],
      FunctionDef ''g'' ''def g(): return 2'' []],
     docstring = None\<rparr>"

text \<open>\<^verbatim>\<open>def f(): return g()\<close>, \<^verbatim>\<open>def g(): return f()\<close>, \<^verbatim>\<open>def h(): return 1\<close>\<close>

definition mutual_recursion_file :: py_module where
  "mutual_recursion_file = \<lparr>body =
     [FunctionDef ''f'' ''def f(): return g()'' [''g''],
      FunctionDef ''g'' ''def g(): return f()'' [''f''],
      FunctionDef ''h'' ''def h(): return 1'' []],
     docstring = None\<rparr>"



section \<open>Properties of name normalization\<close>

lemma snake_char_not_space: "snake_char c \<Longrightarrow> \<not> is_space c"
  by (auto simp: snake_char_def is_space_def is_lower_def is_digit_def less_eq_char_def)

lemma snake_char_not_upper: "snake_char c \<Longrightarrow> \<not> is_upper c"
  by (auto simp: snake_char_def is_upper_def is_lower_def is_digit_def less_eq_char_def)

lemma snake_char_not_dash: "snake_char c \<Longrightarrow> c \<noteq> CHR ''-''"
  by (auto simp: snake_char_def is_lower_def is_digit_def less_eq_char_def)

lemma snake_char_ident: "snake_char c \<Longrightarrow> is_ident c"
  by (auto simp: snake_char_def is_ident_def)

lemma snake_char_lower: "snake_char c \<Longrightarrow> lower_char c = c"
  by (simp add: lower_char_def snake_char_not_upper)

lemma lower_char_snake: "is_ident c \<Longrightarrow> snake_char (lower_char c)"
  by (auto simp: snake_char_def is_ident_def lower_char_def is_upper_def is_lower_def is_digit_def less_eq_char_def)

lemma camel_sub_id: "\<forall>c \<in> set s. \<not> is_upper c \<Longrightarrow> camel_sub s = s"
  by (induction s rule: camel_sub.induct) auto

lemma ident_sub_id: "\<forall>c \<in> set s. is_ident c \<Longrightarrow> ident_sub s = s"
  by (induction s) auto

lemma ident_sub_ident: "c \<in> set (ident_sub s) \<Longrightarrow> is_ident c"
proof (induction s rule: ident_sub.induct)
  case 1
  then show ?case by simp
next
  case (2 d ds)
  show ?case
  proof (cases "is_ident d")
    case True
    with 2 show ?thesis by auto
  next
    case False
    with 2(3) have "c = CHR ''_'' \<or> c \<in> set (ident_sub (dropWhile (\<lambda>x. \<not> is_ident x) ds))"
      by simp
    with 2(2)[OF False] show ?thesis by (auto simp: is_ident_def)
  qed
qed

lemma lstrip_id: "s \<noteq> [] \<Longrightarrow> \<not> P (hd s) \<Longrightarrow> lstrip P s = s"
  by (cases s) (auto simp: lstrip_def)

lemma rstrip_id: "s \<noteq> [] \<Longrightarrow> \<not> P (last s) \<Longrightarrow> rstrip P s = s"
  by (cases s rule: rev_cases) (auto simp: rstrip_def)

lemma strip_id: "s \<noteq> [] \<Longrightarrow> \<not> P (hd s) \<Longrightarrow> \<not> P (last s) \<Longrightarrow> strip P s = s"
  by (simp add: strip_def lstrip_id rstrip_id)

lemma drop_spaces_id:
  "s \<noteq> [] \<Longrightarrow> \<not> is_space (hd s) \<Longrightarrow> (\<And>b. \<not> P2 (hd s) b) \<Longrightarrow> (\<And>b c. \<not> P3 (hd s) b c)
   \<Longrightarrow> drop_spaces P2 P3 s = s"
  by (cases "(P2, P3, s)" rule: drop_spaces.cases) auto

lemma snake_char_ascii: "snake_char c \<Longrightarrow> c < CHR 0x80"
  by (auto simp: snake_char_def is_lower_def is_digit_def less_eq_char_def less_char_def)

lemma py_strip_id:
  assumes "s \<noteq> []" "snake_char (hd s)" "snake_char (last s)"
  shows "py_strip s = s"
proof -
  have h: "hd s < CHR 0x80" and l: "last s < CHR 0x80"
    using assms(2,3) by (simp_all add: snake_char_ascii)
  have 1: "py_lstrip s = s"
    unfolding py_lstrip_def using assms(1)
  proof (rule drop_spaces_id)
    show "\<not> is_space (hd s)" using assms(2) by (rule snake_char_not_space)
    show "\<not> is_space2 (hd s) b" for b using h by (auto simp: is_space2_def less_char_def)
    show "\<not> is_space3 (hd s) b c" for b c using h by (auto simp: is_space3_def less_char_def)
  qed
  have "drop_spaces (\<lambda>b a. is_space2 a b) (\<lambda>c b a. is_space3 a b c) (rev s) = rev s"
  proof (rule drop_spaces_id)
    show "rev s \<noteq> []" using assms(1) by simp
    have hr: "hd (rev s) = last s" using assms(1) by (simp add: hd_rev)
    show "\<not> is_space (hd (rev s))" unfolding hr using assms(3) by (rule snake_char_not_space)
    show "\<not> is_space2 b (hd (rev s))" for b
      unfolding hr using l by (auto simp: is_space2_def less_char_def)
    show "\<not> is_space3 c b (hd (rev s))" for b c
      unfolding hr using l by (auto simp: is_space3_def less_char_def less_eq_char_def)
  qed
  then have 2: "py_rstrip s = s" by (simp add: py_rstrip_def)
  show ?thesis by (simp add: py_strip_def 1 2)
qed

lemma set_strip: "set (strip P s) \<subseteq> set s"
proof -
  have "set (rev (dropWhile P (rev (dropWhile P s)))) \<subseteq> set (dropWhile P s)"
    using set_dropWhileD[of _ P "rev (dropWhile P s)"] by auto
  moreover have "set (dropWhile P s) \<subseteq> set s"
    using set_dropWhileD[of _ P s] by auto
  ultimately show ?thesis by (simp add: strip_def lstrip_def rstrip_def)
qed

lemma rstrip_last: "rstrip P s \<noteq> [] \<Longrightarrow> \<not> P (last (rstrip P s))"
  unfolding rstrip_def by (simp add: last_rev hd_dropWhile)

lemma rstrip_hd: "rstrip P s \<noteq> [] \<Longrightarrow> hd (rstrip P s) = hd s"
proof (induction s rule: rev_induct)
  case Nil then show ?case by (simp add: rstrip_def)
next
  case (snoc x xs)
  then show ?case by (cases xs) (auto simp: rstrip_def split: if_splits)
qed

lemma strip_hd: "strip P s \<noteq> [] \<Longrightarrow> \<not> P (hd (strip P s))"
proof -
  assume a: "strip P s \<noteq> []"
  then have "hd (strip P s) = hd (lstrip P s)" by (simp add: strip_def rstrip_hd)
  moreover have "lstrip P s \<noteq> []" using a by (auto simp: strip_def rstrip_def)
  ultimately show ?thesis by (simp add: lstrip_def hd_dropWhile)
qed

lemma strip_last: "strip P s \<noteq> [] \<Longrightarrow> \<not> P (last (strip P s))"
  by (simp add: strip_def rstrip_last)

lemma kw_no_underscore: "iskeyword s \<Longrightarrow> CHR ''_'' \<notin> set s"
proof -
  have "\<forall>k \<in> set kwlist. CHR ''_'' \<notin> set k" unfolding kwlist_def by simp
  then show "iskeyword s \<Longrightarrow> CHR ''_'' \<notin> set s" unfolding iskeyword_def by blast
qed

lemma to_snake_fixed: "normalized n \<Longrightarrow> to_snake n = n"
proof -
  assume n: "normalized n"
  then have ne: "n \<noteq> []" and sc: "\<forall>c \<in> set n. snake_char c"
    and h: "hd n \<noteq> CHR ''_''" and l: "last n \<noteq> CHR ''_''"
    and d: "\<not> is_digit (hd n)" and k: "\<not> iskeyword n"
    by (simp_all add: normalized_def)
  have "snake_char (hd n)" "snake_char (last n)" using ne sc by simp_all
  then have hs: "\<not> is_space (hd n)" and ls: "\<not> is_space (last n)"
    by (simp_all add: snake_char_not_space)
  have 1: "py_strip n = n" using ne \<open>snake_char (hd n)\<close> \<open>snake_char (last n)\<close> by (rule py_strip_id)
  have 2: "map (\<lambda>c. if c = CHR ''-'' then CHR ''_'' else c) n = n"
    by (rule map_idI) (use sc snake_char_not_dash in auto)
  have 3: "camel_sub n = n"
    by (rule camel_sub_id) (use sc snake_char_not_upper in blast)
  have 4: "ident_sub n = n"
    by (rule ident_sub_id) (use sc snake_char_ident in blast)
  have 5: "lower n = n" unfolding lower_def
    by (rule map_idI) (use sc snake_char_lower in blast)
  have 6: "strip (\<lambda>c. c = CHR ''_'') n = n" using ne h l by (rule strip_id)
  show ?thesis using ne d k by (simp add: to_snake_def 1 2 3 4 5 6)
qed

lemma to_snake_normalized: "normalized (to_snake s)"
proof -
  define n3 where "n3 = strip (\<lambda>c. c = CHR ''_'') (lower (ident_sub (camel_sub
     (map (\<lambda>c. if c = CHR ''-'' then CHR ''_'' else c) (py_strip s)))))"
  define n4 where "n4 = (if n3 = [] then ''module'' else n3)"
  define n5 where "n5 = (if is_digit (hd n4) then ''m_'' @ n4 else n4)"
  have ts: "to_snake s = (if iskeyword n5 then ''mod_'' @ n5 else n5)"
    by (simp add: to_snake_def n3_def n4_def n5_def Let_def)
  have c3: "\<forall>c \<in> set n3. snake_char c"
  proof
    fix c assume "c \<in> set n3"
    then have "c \<in> set (lower (ident_sub (camel_sub
     (map (\<lambda>c. if c = CHR ''-'' then CHR ''_'' else c) (py_strip s)))))"
      unfolding n3_def using set_strip by blast
    then obtain d where "c = lower_char d" and "d \<in> set (ident_sub (camel_sub
     (map (\<lambda>c. if c = CHR ''-'' then CHR ''_'' else c) (py_strip s))))"
      unfolding lower_def by auto
    then show "snake_char c" using ident_sub_ident lower_char_snake by blast
  qed
  have h3: "n3 \<noteq> [] \<Longrightarrow> hd n3 \<noteq> CHR ''_''"
    unfolding n3_def using strip_hd[of "\<lambda>c. c = CHR ''_''"] by blast
  have l3: "n3 \<noteq> [] \<Longrightarrow> last n3 \<noteq> CHR ''_''"
    unfolding n3_def using strip_last[of "\<lambda>c. c = CHR ''_''"] by blast
  have m: "\<forall>c \<in> set ''module''. snake_char c"
    by (simp add: snake_char_def is_lower_def)
  have m2: "\<forall>c \<in> set ''mod_''. snake_char c"
    by (simp add: snake_char_def is_lower_def)
  have c4: "\<forall>c \<in> set n4. snake_char c" using c3 m by (simp add: n4_def)
  have ne4: "n4 \<noteq> []" by (simp add: n4_def)
  have h4: "hd n4 \<noteq> CHR ''_''" using h3 by (simp add: n4_def)
  have l4: "last n4 \<noteq> CHR ''_''" using l3 by (simp add: n4_def)
  have c5: "\<forall>c \<in> set n5. snake_char c"
    using c4 m2 by (simp add: n5_def)
  have ne5: "n5 \<noteq> []" using ne4 by (simp add: n5_def)
  have h5: "hd n5 \<noteq> CHR ''_''" using h4 by (simp add: n5_def)
  have l5: "last n5 \<noteq> CHR ''_''" using l4 ne4 by (simp add: n5_def)
  have d5: "\<not> is_digit (hd n5)" by (simp add: n5_def is_digit_def)
  have "CHR ''_'' \<in> set (''mod_'' @ n5)" by simp
  then have nk: "\<not> iskeyword (''mod_'' @ n5)" using kw_no_underscore by blast
  show ?thesis
  proof (cases "iskeyword n5")
    case True
    have "\<forall>c \<in> set (''mod_'' @ n5). snake_char c"
      using c5 m2 by simp
    moreover have "last (''mod_'' @ n5) \<noteq> CHR ''_''" using l5 ne5 by simp
    moreover have "\<not> is_digit (hd (''mod_'' @ n5))" by (simp add: is_digit_def)
    ultimately show ?thesis using True nk by (simp add: ts normalized_def)
  next
    case False
    then show ?thesis using c5 ne5 h5 l5 d5 by (simp add: ts normalized_def)
  qed
qed

text \<open>
  Claim C9. Name normalization is idempotent: for every string \<open>s\<close>,
  \<open>to_snake (to_snake s) = to_snake s\<close>. The result of \<open>to_snake\<close> is always a normalized
  name, and \<open>to_snake\<close> returns a normalized name unchanged.
\<close>

theorem to_snake_idempotent: "to_snake (to_snake s) = to_snake s"
  by (rule to_snake_fixed) (rule to_snake_normalized)

theorem to_snake_idempotent_witness:
  "to_snake ''HTTPServer-v2'' = ''httpserver_v2'' \<and> to_snake ''httpserver_v2'' = ''httpserver_v2''"
proof -
  have a: "to_snake ''HTTPServer-v2'' = ''httpserver_v2''" by code_simp
  show ?thesis using to_snake_idempotent[of "''HTTPServer-v2''"] unfolding a by simp
qed

section \<open>Correctness of the component search\<close>

lemma finite_nodes: "finite (nodes g)" by (simp add: nodes_def)

lemma succs_nodes: "w \<in> succs g v \<Longrightarrow> w \<in> nodes g"
proof -
  assume w: "w \<in> succs g v"
  then obtain ws where m: "map_of g v = Some ws" and ws: "w \<in> set ws"
    by (cases "map_of g v") (auto simp: succs_def graph_get_def)
  from m have "(v, ws) \<in> set g" by (rule map_of_SomeD)
  then have "v \<in> fst ` set g" by force
  moreover have "w \<in> set (graph_get g v)" using m ws by (simp add: graph_get_def)
  ultimately show ?thesis by (auto simp: nodes_def)
qed

lemma pop_component_ok:
  "distinct (new @ v # S0) \<Longrightarrow> set new \<subseteq> os \<Longrightarrow> v \<in> os \<Longrightarrow>
   pop_component v (new @ v # S0) os acc = Inr (acc @ new @ [v], S0, os - set (new @ [v]))"
proof (induction new arbitrary: os acc)
  case Nil
  then show ?case by simp
next
  case (Cons a new)
  have "a \<noteq> v" using Cons.prems(1) by auto
  moreover have "a \<in> os" using Cons.prems(2) by simp
  moreover have "pop_component v (new @ v # S0) (os - {a}) (acc @ [a])
      = Inr ((acc @ [a]) @ new @ [v], S0, (os - {a}) - set (new @ [v]))"
    using Cons.prems by (intro Cons.IH) auto
  moreover have "(os - {a}) - set (new @ [v]) = os - set ((a # new) @ [v])" by auto
  ultimately show ?case by simp
qed

lemma visited_push [simp]: "visited (push v st) = insert v (visited st)"
  by (auto simp: visited_def push_def)

lemma idx_push: "idx (push v st) x = (if x = v then index st else idx st x)"
  by (simp add: idx_def push_def)

lemma low_push: "low (push v st) x = (if x = v then index st else low st x)"
  by (simp add: low_def push_def)

lemma push_fields [simp]:
  "stack (push v st) = v # stack st" "onstack (push v st) = insert v (onstack st)"
  "components (push v st) = components st" "index (push v st) = Suc (index st)"
  by (simp_all add: push_def)

lemma visited_set_low [simp]: "visited (set_low v n st) = visited st"
  by (simp add: visited_def set_low_def)

lemma idx_set_low [simp]: "idx (set_low v n st) x = idx st x"
  by (simp add: idx_def set_low_def)

lemma low_set_low: "low (set_low v n st) x = (if x = v then n else low st x)"
  by (simp add: low_def set_low_def)

lemma set_low_fields [simp]:
  "stack (set_low v n st) = stack st" "onstack (set_low v n st) = onstack st"
  "components (set_low v n st) = components st" "index (set_low v n st) = index st"
  "indices (set_low v n st) = indices st"
  by (simp_all add: set_low_def)

lemma tinv_set_low: "tinv g st \<Longrightarrow> v \<in> visited st \<Longrightarrow> tinv g (set_low v n st)"
proof -
  assume t: "tinv g st" and v: "v \<in> visited st"
  have "dom (lowlink (set_low v n st)) = visited st"
    using t v by (auto simp: tinv_def set_low_def)
  then show ?thesis using t unfolding tinv_def by simp
qed

lemma tinv_push:
  assumes "tinv g st" "v \<notin> visited st" "v \<in> nodes g"
  shows "tinv g (push v st)"
proof -
  have a: "v \<notin> set (stack st)" using assms by (auto simp: tinv_def)
  have 1: "\<forall>x \<in> insert v (visited st). idx (push v st) x < Suc (index st)"
    using assms by (auto simp: tinv_def idx_push)
  have 2: "dom (lowlink (push v st)) = insert v (visited st)"
    using assms by (auto simp: tinv_def push_def)
  have 3: "insert v (visited st) - set (v # stack st) = visited st - set (stack st)"
    using assms(2) by auto
  have 4: "set (stack st) \<subseteq> insert v (visited st)" using assms(1) by (auto simp: tinv_def)
  show ?thesis using assms a 1 2 3 4
    unfolding tinv_def by simp
qed


lemma frame_idx: "frame st st' exc \<Longrightarrow> x \<in> visited st \<Longrightarrow> idx st' x = idx st x"
proof -
  assume f: "frame st st' exc" and x: "x \<in> visited st"
  then obtain i where i: "indices st x = Some i" by (auto simp: visited_def)
  with f have "indices st' x = Some i" by (auto simp: frame_def map_le_def dom_def)
  with i show ?thesis by (simp add: idx_def)
qed

lemma frame_low: "frame st st' exc \<Longrightarrow> x \<in> visited st \<Longrightarrow> x \<notin> exc \<Longrightarrow> low st' x = low st x"
  by (simp add: frame_def low_def)

lemma frame_visited: "frame st st' exc \<Longrightarrow> visited st \<subseteq> visited st'"
  by (auto simp: frame_def visited_def map_le_def dom_def)

lemma frame_refl: "frame st st exc"
  by (simp add: frame_def)

lemma frame_trans:
  assumes a: "frame st st1 e1" and b: "frame st1 st2 e2"
  shows "frame st st2 (e1 \<union> e2)"
proof -
  have v: "visited st \<subseteq> visited st1" using a by (rule frame_visited)
  have 1: "indices st \<subseteq>\<^sub>m indices st2" using a b by (auto simp: frame_def intro: map_le_trans)
  have 2: "index st \<le> index st2" using a b by (auto simp: frame_def)
  have 3: "\<forall>x \<in> visited st - (e1 \<union> e2). lowlink st2 x = lowlink st x"
  proof
    fix x assume x: "x \<in> visited st - (e1 \<union> e2)"
    then have "x \<in> visited st1 - e2" using v by auto
    then have "lowlink st2 x = lowlink st1 x" using b by (simp add: frame_def)
    moreover have "lowlink st1 x = lowlink st x" using a x by (simp add: frame_def)
    ultimately show "lowlink st2 x = lowlink st x" by simp
  qed
  have 4: "\<forall>x \<in> visited st2 - visited st. index st \<le> idx st2 x"
  proof
    fix x assume x: "x \<in> visited st2 - visited st"
    show "index st \<le> idx st2 x"
    proof (cases "x \<in> visited st1")
      case True
      then have "index st \<le> idx st1 x" using a x by (auto simp: frame_def)
      then show ?thesis using frame_idx[OF b True] by simp
    next
      case False
      then have "index st1 \<le> idx st2 x" using b x by (auto simp: frame_def)
      then show ?thesis using a by (auto simp: frame_def)
    qed
  qed
  show ?thesis using 1 2 3 4 by (simp add: frame_def)
qed

lemma frame_weaken: "frame st st' e \<Longrightarrow> e \<inter> visited st \<subseteq> e' \<Longrightarrow> frame st st' e'"
  by (auto simp: frame_def)

lemma frame_push: "v \<notin> visited st \<Longrightarrow> frame st (push v st) {}"
  by (auto simp: frame_def map_le_def visited_def push_def idx_def)

lemma frame_set_low: "frame st (set_low v n st) {v}"
  by (auto simp: frame_def set_low_def visited_def)

lemma edge_ok_mono:
  "edge_ok st lv w \<Longrightarrow> n \<le> lv \<Longrightarrow> edge_ok (set_low v n' st) n w"
  by (auto simp: edge_ok_def)

lemma loop_inv_push:
  assumes t: "tinv g st" and nv: "v \<notin> visited st" and vn: "v \<in> nodes g"
  shows "loop_inv g v (stack st) {} (push v st)"
proof -
  have 1: "tinv g (push v st)" using assms by (rule tinv_push)
  have 2: "\<forall>y \<in> set (stack st). idx (push v st) y < idx (push v st) v"
    using t nv by (auto simp: idx_push tinv_def)
  have 3: "stack (push v st) = [] @ v # stack st" by simp
  show ?thesis
    unfolding loop_inv_def using 1 2 3
    by (simp add: idx_push low_push del: append_Nil)
qed


lemma loop_invI:
  assumes "tinv g st" "v \<in> visited st" "stack st = new @ v # S0"
    "\<And>x. x \<in> set new \<Longrightarrow> idx st v < idx st x"
    "\<And>x w. x \<in> set new \<Longrightarrow> w \<in> succs g x \<Longrightarrow> edge_ok st (low st v) w"
    "low st v \<le> idx st v" "\<And>y. y \<in> set S0 \<Longrightarrow> idx st y < idx st v"
    "low st v = idx st v \<or> (\<exists>y \<in> set S0. idx st y \<le> low st v)"
    "\<And>w. w \<in> dn \<Longrightarrow> edge_ok st (low st v) w"
  shows "loop_inv g v S0 dn st"
  unfolding loop_inv_def using assms by blast

lemma loop_invE:
  assumes "loop_inv g v S0 dn st"
  obtains new where "tinv g st" "v \<in> visited st" "stack st = new @ v # S0"
    "\<And>x. x \<in> set new \<Longrightarrow> idx st v < idx st x"
    "\<And>x w. x \<in> set new \<Longrightarrow> w \<in> succs g x \<Longrightarrow> edge_ok st (low st v) w"
    "low st v \<le> idx st v" "\<And>y. y \<in> set S0 \<Longrightarrow> idx st y < idx st v"
    "low st v = idx st v \<or> (\<exists>y \<in> set S0. idx st y \<le> low st v)"
    "\<And>w. w \<in> dn \<Longrightarrow> edge_ok st (low st v) w"
  using assms unfolding loop_inv_def by blast

lemma loop_inv_onstack:
  assumes li: "loop_inv g v S0 dn st" and w: "w \<in> onstack st"
  shows "loop_inv g v S0 (insert w dn) (set_low v (min (low st v) (idx st w)) st)"
proof (rule loop_invE[OF li])
  fix new
  assume t: "tinv g st" and v: "v \<in> visited st"
    and stk: "stack st = new @ v # S0"
    and nw: "\<And>x. x \<in> set new \<Longrightarrow> idx st v < idx st x"
    and ep: "\<And>x w. x \<in> set new \<Longrightarrow> w \<in> succs g x \<Longrightarrow> edge_ok st (low st v) w"
    and le: "low st v \<le> idx st v" and s0: "\<And>y. y \<in> set S0 \<Longrightarrow> idx st y < idx st v"
    and lb: "low st v = idx st v \<or> (\<exists>y \<in> set S0. idx st y \<le> low st v)"
    and dn: "\<And>w. w \<in> dn \<Longrightarrow> edge_ok st (low st v) w"
  let ?n = "min (low st v) (idx st w)"
  let ?st = "set_low v ?n st"
  have ws: "w \<in> set (stack st)" using w t by (simp add: tinv_def)
  then have wv: "w \<in> visited st" using t by (auto simp: tinv_def)
  have lown: "low ?st v = ?n" by (simp add: low_set_low)
  show ?thesis
  proof (rule loop_invI[where new = new])
    show "tinv g ?st" using t v by (rule tinv_set_low)
    show "v \<in> visited ?st" using v by simp
    show "stack ?st = new @ v # S0" using stk by simp
    show "\<And>x. x \<in> set new \<Longrightarrow> idx ?st v < idx ?st x" using nw by simp
    show "\<And>x w. x \<in> set new \<Longrightarrow> w \<in> succs g x \<Longrightarrow> edge_ok ?st (low ?st v) w"
      unfolding lown using ep by (intro edge_ok_mono) auto
    show "low ?st v \<le> idx ?st v" unfolding lown using le by simp
    show "\<And>y. y \<in> set S0 \<Longrightarrow> idx ?st y < idx ?st v" using s0 by simp
    show "low ?st v = idx ?st v \<or> (\<exists>y \<in> set S0. idx ?st y \<le> low ?st v)"
    proof (cases "low st v \<le> idx st w")
      case True
      then have "?n = low st v" by simp
      then show ?thesis using lb unfolding lown by simp
    next
      case False
      then have n: "?n = idx st w" and lt: "idx st w < low st v" by simp_all
      have "w \<noteq> v" using lt le by auto
      moreover have "w \<notin> set new" using nw[of w] lt le by auto
      ultimately have "w \<in> set S0" using ws stk by simp
      moreover have "idx ?st w \<le> low ?st v" using lown n by simp
      ultimately show ?thesis by blast
    qed
    show "\<And>w'. w' \<in> insert w dn \<Longrightarrow> edge_ok ?st (low ?st v) w'"
    proof -
      fix w' assume "w' \<in> insert w dn"
      then consider "w' = w" | "w' \<in> dn" by auto
      then show "edge_ok ?st (low ?st v) w'"
      proof cases
        case 1
        then show ?thesis unfolding lown using wv by (simp add: edge_ok_def)
      next
        case 2
        then show ?thesis unfolding lown using dn by (intro edge_ok_mono) auto
      qed
    qed
  qed
qed

lemma loop_inv_popped:
  assumes li: "loop_inv g v S0 dn st" and w: "w \<in> visited st" "w \<notin> onstack st"
  shows "loop_inv g v S0 (insert w dn) st"
proof -
  have "tinv g st" using li by (simp add: loop_inv_def)
  then have "edge_ok st (low st v) w" using w by (simp add: edge_ok_def tinv_def)
  then show ?thesis using li unfolding loop_inv_def by simp
qed


lemma sc_postE:
  assumes "sc_post g v st st'"
  obtains new where "tinv g st'" "frame st st' {}" "v \<in> visited st'" "idx st' v = index st"
    "low st' v \<le> index st"
    "index st \<le> low st' v \<or> (\<exists>y \<in> set (stack st). idx st y \<le> low st' v)"
    "stack st' = new @ stack st" "set new \<inter> visited st = {}"
    "new \<noteq> [] \<Longrightarrow> last new = v \<and> low st' v < index st"
    "\<And>x w. x \<in> set new \<Longrightarrow> w \<in> succs g x \<Longrightarrow> edge_ok st' (low st' v) w"
  using assms unfolding sc_post_def by blast

lemma loop_inv_child:
  assumes li: "loop_inv g v S0 dn st" and sc: "sc_post g w st st'" and w: "w \<notin> visited st"
  shows "loop_inv g v S0 (insert w dn) (set_low v (min (low st' v) (low st' w)) st')"
proof (rule loop_invE[OF li])
  fix new
  assume t: "tinv g st" and v: "v \<in> visited st"
    and stk: "stack st = new @ v # S0"
    and nw: "\<And>x. x \<in> set new \<Longrightarrow> idx st v < idx st x"
    and ep: "\<And>x w. x \<in> set new \<Longrightarrow> w \<in> succs g x \<Longrightarrow> edge_ok st (low st v) w"
    and le: "low st v \<le> idx st v" and s0: "\<And>y. y \<in> set S0 \<Longrightarrow> idx st y < idx st v"
    and lb: "low st v = idx st v \<or> (\<exists>y \<in> set S0. idx st y \<le> low st v)"
    and dn: "\<And>w. w \<in> dn \<Longrightarrow> edge_ok st (low st v) w"
  show ?thesis
  proof (rule sc_postE[OF sc])
    fix newc
    assume t': "tinv g st'" and fr: "frame st st' {}" and wv: "w \<in> visited st'"
      and iw: "idx st' w = index st" and lw: "low st' w \<le> index st"
      and lbw: "index st \<le> low st' w \<or> (\<exists>y \<in> set (stack st). idx st y \<le> low st' w)"
      and stk': "stack st' = newc @ stack st" and dj: "set newc \<inter> visited st = {}"
      and epc: "\<And>x w'. x \<in> set newc \<Longrightarrow> w' \<in> succs g x \<Longrightarrow> edge_ok st' (low st' w) w'"
    let ?n = "min (low st' v) (low st' w)"
    let ?st = "set_low v ?n st'"
    have vis: "visited st \<subseteq> visited st'" using fr by (rule frame_visited)
    have idx_eq: "\<And>x. x \<in> visited st \<Longrightarrow> idx st' x = idx st x" using fr by (rule frame_idx)
    have lowv: "low st' v = low st v" using fr v by (simp add: frame_low)
    have stkv: "set (stack st) \<subseteq> visited st" using t by (simp add: tinv_def)
    have v_bound: "idx st v < index st" using t v by (simp add: tinv_def)
    have lown: "low ?st v = ?n" by (simp add: low_set_low)
    have n_le: "?n \<le> low st v" using lowv by simp
    have old_edge: "edge_ok ?st ?n w'" if e: "edge_ok st (low st v) w'" for w'
    proof -
      from e have w'v: "w' \<in> visited st" by (simp add: edge_ok_def)
      have "w' \<in> set (stack st') \<Longrightarrow> ?n \<le> idx st' w'"
      proof -
        assume "w' \<in> set (stack st')"
        then have "w' \<in> set (stack st)" using stk' dj w'v by auto
        then have "low st v \<le> idx st w'" using e by (simp add: edge_ok_def)
        then show "?n \<le> idx st' w'" using n_le idx_eq[OF w'v] by simp
      qed
      then show ?thesis using w'v vis by (auto simp: edge_ok_def)
    qed
    show ?thesis
    proof (rule loop_invI[where new = "newc @ new"])
      show "tinv g ?st" using t' v vis by (intro tinv_set_low) auto
      show "v \<in> visited ?st" using v vis by auto
      show "stack ?st = (newc @ new) @ v # S0" using stk stk' by simp
      show "idx ?st v < idx ?st x" if "x \<in> set (newc @ new)" for x
      proof (cases "x \<in> set new")
        case True
        then have "x \<in> visited st" using stk stkv by auto
        then show ?thesis using nw[OF True] idx_eq v by simp
      next
        case False
        then have xc: "x \<in> set newc" using that by simp
        then have "x \<notin> visited st" using dj by auto
        moreover have "x \<in> visited st'" using xc stk' t' by (auto simp: tinv_def)
        ultimately have "index st \<le> idx st' x" using fr by (simp add: frame_def)
        then show ?thesis using v_bound idx_eq[OF v] by simp
      qed
      show "edge_ok ?st (low ?st v) w'" if "x \<in> set (newc @ new)" "w' \<in> succs g x" for x w'
      proof (cases "x \<in> set new")
        case True
        then show ?thesis unfolding lown using old_edge ep that(2) by blast
      next
        case False
        then have "x \<in> set newc" using that by simp
        then have "edge_ok st' (low st' w) w'" using epc that(2) by blast
        then show ?thesis unfolding lown by (rule edge_ok_mono) simp
      qed
      show "low ?st v \<le> idx ?st v" unfolding lown using le lowv idx_eq[OF v] by simp
      show "idx ?st y < idx ?st v" if "y \<in> set S0" for y
      proof -
        have "y \<in> visited st" using that stk stkv by auto
        then show ?thesis using s0[OF that] idx_eq v by simp
      qed
      show "low ?st v = idx ?st v \<or> (\<exists>y \<in> set S0. idx ?st y \<le> low ?st v)"
      proof (cases "low st' v \<le> low st' w")
        case True
        then have n: "?n = low st v" using lowv by simp
        from lb show ?thesis
        proof
          assume "low st v = idx st v"
          then show ?thesis using lown n idx_eq[OF v] by simp
        next
          assume "\<exists>y \<in> set S0. idx st y \<le> low st v"
          then obtain y where y: "y \<in> set S0" "idx st y \<le> low st v" by blast
          then have "y \<in> visited st" using stk stkv by auto
          then have "idx ?st y \<le> low ?st v" using y lown n idx_eq by simp
          then show ?thesis using y by blast
        qed
      next
        case False
        then have n: "?n = low st' w" and lt: "low st' w < low st v" using lowv by simp_all
        have "\<not> index st \<le> low st' w" using lt le v_bound by simp
        then obtain y where y: "y \<in> set (stack st)" "idx st y \<le> low st' w" using lbw by blast
        have "y \<noteq> v" using y lt le by auto
        moreover have "y \<notin> set new" using nw[of y] y lt le by auto
        ultimately have ys: "y \<in> set S0" using y stk by simp
        have "y \<in> visited st" using y stkv by auto
        then have "idx ?st y \<le> low ?st v" using y lown n idx_eq by simp
        then show ?thesis using ys by blast
      qed
      show "edge_ok ?st (low ?st v) w'" if "w' \<in> insert w dn" for w'
      proof (cases "w' = w")
        case True
        have "?n \<le> idx st' w" using iw lw by simp
        then show ?thesis unfolding lown True using wv by (simp add: edge_ok_def)
      next
        case False
        then have "w' \<in> dn" using that by simp
        then show ?thesis unfolding lown using old_edge dn by blast
      qed
    qed
  qed
qed

lemma frame_child:
  assumes "frame st st' {}" 
  shows "frame st (set_low v n st') {v}"
proof -
  have "frame st (set_low v n st') ({} \<union> {v})"
    using assms frame_set_low by (rule frame_trans)
  then show ?thesis by simp
qed


lemma popped_state_simps [simp]:
  "visited (popped_state cmp S0 st) = visited st"
  "idx (popped_state cmp S0 st) x = idx st x"
  "low (popped_state cmp S0 st) x = low st x"
  "stack (popped_state cmp S0 st) = S0"
  "index (popped_state cmp S0 st) = index st"
  "indices (popped_state cmp S0 st) = indices st"
  "lowlink (popped_state cmp S0 st) = lowlink st"
  "onstack (popped_state cmp S0 st) = onstack st - set cmp"
  "components (popped_state cmp S0 st) = components st @ [cmp]"
  by (simp_all add: popped_state_def visited_def idx_def low_def)

lemma tinv_popped:
  assumes t: "tinv g st" and stk: "stack st = new @ v # S0"
    and s0: "\<And>y. y \<in> set S0 \<Longrightarrow> idx st y < idx st v"
    and root: "low st v = idx st v"
    and ep: "\<And>x w. x \<in> set (new @ [v]) \<Longrightarrow> w \<in> succs g x \<Longrightarrow> edge_ok st (low st v) w"
  shows "tinv g (popped_state (new @ [v]) S0 st)"
proof -
  let ?C = "new @ [v]"
  let ?st = "popped_state ?C S0 st"
  have d: "distinct (new @ v # S0)" using t stk by (simp add: tinv_def)
  have sv: "set (new @ v # S0) \<subseteq> visited st" using t stk by (simp add: tinv_def)
  have os: "onstack st = set (new @ v # S0)" using t stk by (simp add: tinv_def)
  have cc: "set (concat (components st)) = visited st - set (new @ v # S0)"
    using t stk by (simp add: tinv_def)
  have 1: "dom (lowlink ?st) = visited ?st" using t by (simp add: tinv_def)
  have 2: "onstack ?st = set (stack ?st)" using os d by auto
  have 3: "distinct (stack ?st)" using d by simp
  have 4: "set (stack ?st) \<subseteq> visited ?st" using sv by simp
  have 5: "\<forall>x \<in> visited ?st. idx ?st x < index ?st" using t by (simp add: tinv_def)
  have 6: "visited ?st \<subseteq> nodes g" using t by (simp add: tinv_def)
  have 7: "set (concat (components ?st)) = visited ?st - set (stack ?st)"
    using cc sv d by auto
  have 8: "distinct (concat (components ?st))"
    using t cc d by (auto simp: tinv_def)
  have closed_all: "succ_closed g (visited st - set S0)"
    unfolding succ_closed_def
  proof (intro ballI subsetI)
    fix x w assume x: "x \<in> visited st - set S0" and w: "w \<in> succs g x"
    show "w \<in> visited st - set S0"
    proof (cases "x \<in> set ?C")
      case True
      then have e: "edge_ok st (low st v) w" using ep w by blast
      then have wv: "w \<in> visited st" by (simp add: edge_ok_def)
      have "w \<notin> set S0"
      proof
        assume ws: "w \<in> set S0"
        then have "w \<in> set (stack st)" using stk by simp
        then have "low st v \<le> idx st w" using e by (simp add: edge_ok_def)
        then show False using s0[OF ws] root by simp
      qed
      then show ?thesis using wv by simp
    next
      case False
      then have "x \<in> set (concat (components st))" using x cc by auto
      moreover have "succ_closed g (set (concat (take (length (components st)) (components st))))"
        using t unfolding tinv_def by blast
      then have "succ_closed g (set (concat (components st)))" by simp
      ultimately have "w \<in> set (concat (components st))"
        using w unfolding succ_closed_def by blast
      then show ?thesis using cc by auto
    qed
  qed
  have 9: "\<forall>k \<le> length (components ?st). succ_closed g (set (concat (take k (components ?st))))"
  proof (intro allI impI)
    fix k assume k: "k \<le> length (components ?st)"
    show "succ_closed g (set (concat (take k (components ?st))))"
    proof (cases "k \<le> length (components st)")
      case True
      then show ?thesis using t unfolding tinv_def by simp
    next
      case False
      then have "take k (components ?st) = components ?st" using k by simp
      then show ?thesis using closed_all 7 by simp
    qed
  qed
  have 10: "[] \<notin> set (components ?st)" using t by (simp add: tinv_def)
  show ?thesis unfolding tinv_def using 1 2 3 4 5 6 7 8 9 10 by blast
qed


lemma tinv_lookup:
  assumes "tinv g st" "x \<in> visited st"
  shows "indices st x = Some (idx st x)" "lowlink st x = Some (low st x)"
proof -
  from assms obtain i where "indices st x = Some i" by (auto simp: visited_def)
  then show "indices st x = Some (idx st x)" by (simp add: idx_def)
  from assms have "x \<in> dom (lowlink st)" by (simp add: tinv_def)
  then obtain l where "lowlink st x = Some l" by auto
  then show "lowlink st x = Some (low st x)" by (simp add: low_def)
qed

lemma frame_popped: "frame st st2 e \<Longrightarrow> frame st (popped_state c S st2) e"
  by (simp add: frame_def)

lemma strongconnect_Suc:
  "strongconnect (Suc d) g v st =
     (case visit_edges d g v (graph_get g v) (push v st) of
        Inl e \<Rightarrow> Inl e | Inr st2 \<Rightarrow> finish v st2)"
  by (simp add: finish_def push_def split: sum.splits)

lemma finish_ok:
  assumes t: "tinv g st" and nv: "v \<notin> visited st"
    and li: "loop_inv g v (stack st) (succs g v) st2"
    and fr: "frame (push v st) st2 {v}"
  shows "\<exists>st3. finish v st2 = Inr st3 \<and> sc_post g v st st3"
proof (rule loop_invE[OF li])
  fix new
  assume t2: "tinv g st2" and v: "v \<in> visited st2"
    and stk: "stack st2 = new @ v # stack st"
    and nw: "\<And>x. x \<in> set new \<Longrightarrow> idx st2 v < idx st2 x"
    and ep: "\<And>x w. x \<in> set new \<Longrightarrow> w \<in> succs g x \<Longrightarrow> edge_ok st2 (low st2 v) w"
    and le: "low st2 v \<le> idx st2 v"
    and s0: "\<And>y. y \<in> set (stack st) \<Longrightarrow> idx st2 y < idx st2 v"
    and lb: "low st2 v = idx st2 v \<or> (\<exists>y \<in> set (stack st). idx st2 y \<le> low st2 v)"
    and dn: "\<And>w. w \<in> succs g v \<Longrightarrow> edge_ok st2 (low st2 v) w"
  have "frame st st2 ({} \<union> {v})" using frame_push[OF nv] fr by (rule frame_trans)
  then have fr2: "frame st st2 {}" using nv by (auto simp: frame_def)
  have iv: "idx st2 v = index st"
    using frame_idx[OF fr, of v] by (simp add: idx_push)
  have stkv: "set (stack st) \<subseteq> visited st" using t by (simp add: tinv_def)
  have lbs: "index st \<le> low st2 v \<or> (\<exists>y \<in> set (stack st). idx st y \<le> low st2 v)"
  proof -
    from lb show ?thesis
    proof
      assume "low st2 v = idx st2 v" then show ?thesis using iv by simp
    next
      assume "\<exists>y \<in> set (stack st). idx st2 y \<le> low st2 v"
      then obtain y where y: "y \<in> set (stack st)" "idx st2 y \<le> low st2 v" by blast
      then have "idx st2 y = idx st y" using frame_idx[OF fr2] stkv by auto
      then show ?thesis using y by auto
    qed
  qed
  have epall: "\<And>x w. x \<in> set (new @ [v]) \<Longrightarrow> w \<in> succs g x \<Longrightarrow> edge_ok st2 (low st2 v) w"
    using ep dn by auto
  have look: "lowlink st2 v = Some (low st2 v)" "indices st2 v = Some (idx st2 v)"
    using tinv_lookup[OF t2 v] by simp_all
  have disj: "set (new @ [v]) \<inter> visited st = {}"
  proof -
    have "x \<notin> visited st" if "x \<in> set new" for x
    proof
      assume xv: "x \<in> visited st"
      then have "idx st2 x = idx st x" using frame_idx[OF fr2] by simp
      moreover have "idx st x < index st" using t xv by (simp add: tinv_def)
      ultimately show False using nw[OF that] iv by simp
    qed
    then show ?thesis using nv by auto
  qed
  show ?thesis
  proof (cases "low st2 v = idx st2 v")
    case True
    let ?st3 = "popped_state (new @ [v]) (stack st) st2"
    have d: "distinct (new @ v # stack st)" using t2 stk by (simp add: tinv_def)
    have os: "onstack st2 = set (new @ v # stack st)" using t2 stk by (simp add: tinv_def)
    have pop: "pop_component v (stack st2) (onstack st2) []
        = Inr ([] @ new @ [v], stack st, onstack st2 - set (new @ [v]))"
      unfolding stk using d os by (intro pop_component_ok) auto
    have fin: "finish v st2 = Inr ?st3"
      using True by (simp add: finish_def look pop popped_state_def)
    have t3: "tinv g ?st3"
      using t2 stk s0 True epall by (rule tinv_popped)
    have "sc_post g v st ?st3"
      unfolding sc_post_def
    proof (intro conjI)
      show "tinv g ?st3" by (rule t3)
      show "frame st ?st3 {}" using fr2 by (rule frame_popped)
      show "v \<in> visited ?st3" using v by simp
      show "idx ?st3 v = index st" using iv by simp
      show "low ?st3 v \<le> index st" using le iv by simp
      show "index st \<le> low ?st3 v \<or> (\<exists>y \<in> set (stack st). idx st y \<le> low ?st3 v)"
        using lbs by simp
      show "\<exists>new. stack ?st3 = new @ stack st \<and> set new \<inter> visited st = {}
            \<and> (new \<noteq> [] \<longrightarrow> last new = v \<and> low ?st3 v < index st)
            \<and> (\<forall>x \<in> set new. \<forall>w \<in> succs g x. edge_ok ?st3 (low ?st3 v) w)"
        by (rule exI[where x = "[]"]) simp
    qed
    then show ?thesis using fin by blast
  next
    case False
    then have fin: "finish v st2 = Inr st2" by (simp add: finish_def look)
    have lt: "low st2 v < index st" using False le iv by simp
    have "sc_post g v st st2"
      unfolding sc_post_def
    proof (intro conjI)
      show "tinv g st2" by (rule t2)
      show "frame st st2 {}" by (rule fr2)
      show "v \<in> visited st2" by (rule v)
      show "idx st2 v = index st" by (rule iv)
      show "low st2 v \<le> index st" using lt by simp
      show "index st \<le> low st2 v \<or> (\<exists>y \<in> set (stack st). idx st y \<le> low st2 v)"
        by (rule lbs)
      show "\<exists>new. stack st2 = new @ stack st \<and> set new \<inter> visited st = {}
            \<and> (new \<noteq> [] \<longrightarrow> last new = v \<and> low st2 v < index st)
            \<and> (\<forall>x \<in> set new. \<forall>w \<in> succs g x. edge_ok st2 (low st2 v) w)"
        using stk disj lt epall by (intro exI[where x = "new @ [v]"]) auto
    qed
    then show ?thesis using fin by blast
  qed
qed


lemma card_unvisited_mono:
  "visited st \<subseteq> visited st' \<Longrightarrow> card (nodes g - visited st') \<le> card (nodes g - visited st)"
  by (intro card_mono) (auto simp: finite_nodes)

lemma set_low_eq: "st\<lparr>lowlink := (lowlink st)(v \<mapsto> n)\<rparr> = set_low v n st"
  by (simp add: set_low_def)

lemma push_eq:
  "st\<lparr>index := index st + 1, indices := (indices st)(v \<mapsto> index st),
      lowlink := (lowlink st)(v \<mapsto> index st), stack := v # stack st,
      onstack := insert v (onstack st)\<rparr> = push v st"
  by (simp add: push_def)

lemma sc_spec_0: "sc_spec 0 g v st"
proof -
  have "card (nodes g - visited st) \<noteq> 0" if "v \<in> nodes g" "v \<notin> visited st"
    using that finite_nodes[of g] by auto
  then show ?thesis unfolding sc_spec_def by auto
qed

lemma sc_spec_Suc:
  assumes ih: "ve_spec d g v (graph_get g v) (push v st)"
  shows "sc_spec (Suc d) g v st"
  unfolding sc_spec_def
proof (intro impI)
  assume t: "tinv g st" and nv: "v \<notin> visited st" and vn: "v \<in> nodes g"
    and c: "card (nodes g - visited st) \<le> Suc d"
  have li: "loop_inv g v (stack st) {} (push v st)" using t nv vn by (rule loop_inv_push)
  have "nodes g - visited (push v st) = (nodes g - visited st) - {v}" by auto
  moreover have "v \<in> nodes g - visited st" using vn nv by simp
  ultimately have "card (nodes g - visited (push v st)) = card (nodes g - visited st) - 1"
    using finite_nodes[of g] by simp
  then have c': "card (nodes g - visited (push v st)) \<le> d" using c by simp
  have "set (graph_get g v) \<subseteq> succs g v" by (simp add: succs_def)
  with ih li c' obtain st2 where ve: "visit_edges d g v (graph_get g v) (push v st) = Inr st2"
    and li2: "loop_inv g v (stack st) ({} \<union> set (graph_get g v)) st2"
    and fr: "frame (push v st) st2 {v}"
    unfolding ve_spec_def by blast
  have li2': "loop_inv g v (stack st) (succs g v) st2" using li2 by (simp add: succs_def)
  from finish_ok[OF t nv li2' fr] obtain st3 where "finish v st2 = Inr st3" "sc_post g v st st3"
    by blast
  then show "\<exists>st'. strongconnect (Suc d) g v st = Inr st' \<and> sc_post g v st st'"
    unfolding strongconnect_Suc ve by simp
qed

lemma ve_spec_Nil: "ve_spec d g v [] st"
  unfolding ve_spec_def by (simp add: frame_refl)

lemma ve_spec_Cons:
  assumes ih1: "indices st w = None \<Longrightarrow> sc_spec d g w st"
    and ih2: "\<And>b. indices st w = None \<Longrightarrow> strongconnect d g w st = Inr b
        \<Longrightarrow> lowlink b v = Some (low b v) \<Longrightarrow> lowlink b w = Some (low b w)
        \<Longrightarrow> ve_spec d g v ws (set_low v (min (low b v) (low b w)) b)"
    and ih3: "indices st w \<noteq> None \<Longrightarrow> w \<in> onstack st
        \<Longrightarrow> lowlink st v = Some (low st v) \<Longrightarrow> indices st w = Some (idx st w)
        \<Longrightarrow> ve_spec d g v ws (set_low v (min (low st v) (idx st w)) st)"
    and ih4: "indices st w \<noteq> None \<Longrightarrow> w \<notin> onstack st \<Longrightarrow> ve_spec d g v ws st"
  shows "ve_spec d g v (w # ws) st"
  unfolding ve_spec_def
proof (intro allI impI)
  fix S0 dn
  assume li: "loop_inv g v S0 dn st" and sub: "set (w # ws) \<subseteq> succs g v"
    and c: "card (nodes g - visited st) \<le> d"
  have t: "tinv g st" and v: "v \<in> visited st" using li by (simp_all add: loop_inv_def)
  have wn: "w \<in> nodes g" using sub succs_nodes by auto
  have sub': "set ws \<subseteq> succs g v" using sub by simp
  have un: "insert w dn \<union> set ws = dn \<union> set (w # ws)" by auto
  show "\<exists>st'. visit_edges d g v (w # ws) st = Inr st' \<and> loop_inv g v S0 (dn \<union> set (w # ws)) st'
               \<and> frame st st' {v}"
  proof (cases "indices st w = None")
    case True
    then have nw: "w \<notin> visited st" by (auto simp: visited_def)
    from ih1[OF True] t nw wn c obtain b where sc: "strongconnect d g w st = Inr b"
      and post: "sc_post g w st b" unfolding sc_spec_def by blast
    have tb: "tinv g b" and frb: "frame st b {}" and wb: "w \<in> visited b"
      using post by (simp_all add: sc_post_def)
    have vb: "v \<in> visited b" using v frame_visited[OF frb] by auto
    let ?b = "set_low v (min (low b v) (low b w)) b"
    have lib: "loop_inv g v S0 (insert w dn) ?b" using li post nw by (rule loop_inv_child)
    have "visited st \<subseteq> visited ?b" using frame_visited[OF frb] by simp
    then have cb: "card (nodes g - visited ?b) \<le> d"
      using card_unvisited_mono[of st ?b g] c by simp
    from ih2[OF True sc tinv_lookup(2)[OF tb vb] tinv_lookup(2)[OF tb wb]] lib sub' cb
    obtain st' where
      ve: "visit_edges d g v ws ?b = Inr st'"
      and li': "loop_inv g v S0 (insert w dn \<union> set ws) st'" and fr': "frame ?b st' {v}"
      unfolding ve_spec_def by blast
    have "frame st ?b {v}" using frb by (rule frame_child)
    then have "frame st st' ({v} \<union> {v})" using fr' by (rule frame_trans)
    then have fr: "frame st st' {v}" by simp
    have "visit_edges d g v (w # ws) st = Inr st'"
      using True sc ve tinv_lookup(2)[OF tb vb] tinv_lookup(2)[OF tb wb]
      by (simp add: set_low_eq)
    then show ?thesis using li' fr un by simp
  next
    case False
    then have wv: "w \<in> visited st" by (auto simp: visited_def)
    show ?thesis
    proof (cases "w \<in> onstack st")
      case True
      let ?b = "set_low v (min (low st v) (idx st w)) st"
      have lib: "loop_inv g v S0 (insert w dn) ?b" using li True by (rule loop_inv_onstack)
      have cb: "card (nodes g - visited ?b) \<le> d" using c by simp
      from ih3[OF False True tinv_lookup(2)[OF t v] tinv_lookup(1)[OF t wv]] lib sub' cb
      obtain st' where
        ve: "visit_edges d g v ws ?b = Inr st'"
        and li': "loop_inv g v S0 (insert w dn \<union> set ws) st'" and fr': "frame ?b st' {v}"
        unfolding ve_spec_def by blast
      have "frame st st' ({v} \<union> {v})" using frame_set_low fr' by (rule frame_trans)
      then have fr: "frame st st' {v}" by simp
      have "visit_edges d g v (w # ws) st = Inr st'"
        using True ve tinv_lookup(2)[OF t v] tinv_lookup(1)[OF t wv]
        by (simp add: set_low_eq False)
      then show ?thesis using li' fr un by simp
    next
      case nos: False
      have lib: "loop_inv g v S0 (insert w dn) st" using li wv nos by (rule loop_inv_popped)
      from ih4[OF False nos] lib sub' c obtain st' where
        ve: "visit_edges d g v ws st = Inr st'"
        and li': "loop_inv g v S0 (insert w dn \<union> set ws) st'" and fr': "frame st st' {v}"
        unfolding ve_spec_def by blast
      have "visit_edges d g v (w # ws) st = Inr st'" using nos ve by (simp add: False)
      then show ?thesis using li' fr' un by simp
    qed
  qed
qed

lemma strongconnect_visit_edges_spec:
  "sc_spec d g v st" "ve_spec d' g' v' ws st'"
proof (induction d g v st and d' g' v' ws st' rule: strongconnect_visit_edges.induct)
  case (1 g v st)
  show ?case by (rule sc_spec_0)
next
  case (2 d g v st)
  then show ?case unfolding push_eq by (rule sc_spec_Suc)
next
  case (3 d g v st)
  show ?case by (rule ve_spec_Nil)
next
  case (4 d g v w ws st)
  show ?case
  proof (rule ve_spec_Cons)
    show "indices st w = None \<Longrightarrow> sc_spec d g w st" by (rule 4(1))
    show "ve_spec d g v ws (set_low v (min (low b v) (low b w)) b)"
      if a: "indices st w = None" "strongconnect d g w st = Inr b"
        and l: "lowlink b v = Some (low b v)" "lowlink b w = Some (low b w)" for b
      using 4(2)[OF a refl l] by (simp add: set_low_eq)
    show "ve_spec d g v ws (set_low v (min (low st v) (idx st w)) st)"
      if a: "indices st w \<noteq> None" "w \<in> onstack st"
        and l: "lowlink st v = Some (low st v)" "indices st w = Some (idx st w)"
      using 4(3)[OF a refl l] by (simp add: set_low_eq)
    show "indices st w \<noteq> None \<Longrightarrow> w \<notin> onstack st \<Longrightarrow> ve_spec d g v ws st" by (rule 4(4))
  qed
qed


lemma tinv_init: "tinv g init_state"
  by (simp add: tinv_def init_state_def visited_def succ_closed_def)

lemma init_state_simps [simp]: "stack init_state = []" "visited init_state = {}"
  by (simp_all add: init_state_def visited_def)

lemma scc_loop_ok:
  "tinv g st \<Longrightarrow> stack st = [] \<Longrightarrow> set vs \<subseteq> nodes g \<Longrightarrow> card (nodes g - visited st) \<le> limit
   \<Longrightarrow> \<exists>st'. scc_loop limit g vs st = Inr st' \<and> tinv g st' \<and> stack st' = []
          \<and> visited st \<union> set vs \<subseteq> visited st'"
proof (induction vs arbitrary: st)
  case Nil
  then show ?case by simp
next
  case (Cons v vs)
  show ?case
  proof (cases "indices st v = None")
    case True
    then have nv: "v \<notin> visited st" by (auto simp: visited_def)
    have "v \<in> nodes g" using Cons.prems(3) by simp
    with strongconnect_visit_edges_spec(1)[of limit g v st] Cons.prems nv
    obtain st1 where sc: "strongconnect limit g v st = Inr st1" and post: "sc_post g v st st1"
      unfolding sc_spec_def by blast
    from post show ?thesis
    proof (rule sc_postE)
      fix new
      assume t1: "tinv g st1" and fr: "frame st st1 {}" and v1: "v \<in> visited st1"
        and low: "low st1 v \<le> index st"
        and lb: "index st \<le> low st1 v \<or> (\<exists>y \<in> set (stack st). idx st y \<le> low st1 v)"
        and stk: "stack st1 = new @ stack st"
        and root: "new \<noteq> [] \<Longrightarrow> last new = v \<and> low st1 v < index st"
      have "index st \<le> low st1 v" using lb Cons.prems(2) by simp
      then have "new = []" using root by fastforce
      then have s1: "stack st1 = []" using stk Cons.prems(2) by simp
      have vis: "visited st \<subseteq> visited st1" using fr by (rule frame_visited)
      then have c1: "card (nodes g - visited st1) \<le> limit"
        using card_unvisited_mono[of st st1 g] Cons.prems(4) by simp
      have "set vs \<subseteq> nodes g" using Cons.prems(3) by simp
      from Cons.IH[OF t1 s1 this c1] obtain st' where
        "scc_loop limit g vs st1 = Inr st'" "tinv g st'" "stack st' = []"
        "visited st1 \<union> set vs \<subseteq> visited st'" by blast
      then show ?thesis using True sc vis v1 by auto
    qed
  next
    case False
    then have vv: "v \<in> visited st" by (auto simp: visited_def)
    have "set vs \<subseteq> nodes g" using Cons.prems(3) by simp
    from Cons.IH[OF Cons.prems(1,2) this Cons.prems(4)] obtain st' where
      "scc_loop limit g vs st = Inr st'" "tinv g st'" "stack st' = []"
      "visited st \<union> set vs \<subseteq> visited st'" by blast
    then show ?thesis using vv by (auto simp: False)
  qed
qed

lemma succ_closed_rtrancl:
  assumes "succ_closed g A" "(x, y) \<in> (dep_edges g)\<^sup>*" "x \<in> A"
  shows "y \<in> A"
  using assms(2,3)
proof (induction rule: rtrancl_induct)
  case base
  then show ?case .
next
  case (step y z)
  then show ?case using assms(1) by (auto simp: succ_closed_def dep_edges_def)
qed

lemma strongly_connected_components_ok:
  assumes "card (nodes g) \<le> limit"
  shows "\<exists>sccs. strongly_connected_components limit g = Inr sccs \<and> scc_result g sccs"
proof -
  have "set (map fst g) \<subseteq> nodes g" by (auto simp: nodes_def)
  moreover have "card (nodes g - visited init_state) \<le> limit" using assms by simp
  ultimately obtain st where loop: "scc_loop limit g (map fst g) init_state = Inr st"
    and t: "tinv g st" and s: "stack st = []" and vis: "set (map fst g) \<subseteq> visited st"
    using scc_loop_ok[OF tinv_init, of "map fst g" g limit] by auto
  have cc: "set (concat (components st)) = visited st" using t s by (simp add: tinv_def)
  have "succ_closed g (set (concat (take (length (components st)) (components st))))"
    using t unfolding tinv_def by blast
  then have cl: "succ_closed g (visited st)" using cc by simp
  have "nodes g \<subseteq> visited st"
  proof
    fix x assume "x \<in> nodes g"
    then consider "x \<in> set (map fst g)" | k where "k \<in> set (map fst g)" "x \<in> succs g k"
      by (auto simp: nodes_def succs_def)
    then show "x \<in> visited st"
    proof cases
      case 1 then show ?thesis using vis by auto
    next
      case 2 then show ?thesis using vis cl by (auto simp: succ_closed_def)
    qed
  qed
  moreover have "visited st \<subseteq> nodes g" using t by (simp add: tinv_def)
  ultimately have "set (concat (components st)) = nodes g" using cc by auto
  moreover have "distinct (concat (components st))" "[] \<notin> set (components st)"
    "\<forall>k \<le> length (components st). succ_closed g (set (concat (take k (components st))))"
    using t by (simp_all add: tinv_def)
  ultimately have "scc_result g (components st)" by (simp add: scc_result_def)
  then show ?thesis using loop by (simp add: strongly_connected_components_def)
qed

lemma scc_result_same_component:
  assumes r: "scc_result g sccs" and a: "a \<in> nodes g"
    and ab: "depends_on g a b" and ba: "depends_on g b a"
  shows "\<exists>c \<in> set sccs. a \<in> set c \<and> b \<in> set c"
proof -
  from r a have "a \<in> set (concat sccs)" by (simp add: scc_result_def)
  then obtain c where "c \<in> set sccs" "a \<in> set c" by auto
  then obtain i where i: "i < length sccs" and ai: "a \<in> set (sccs ! i)"
    by (metis in_set_conv_nth)
  have split: "take (Suc i) sccs = take i sccs @ [sccs ! i]"
    using i by (simp add: take_Suc_conv_app_nth)
  have d: "distinct (concat (take (Suc i) sccs))"
  proof -
    have "sccs = take (Suc i) sccs @ drop (Suc i) sccs" by simp
    then have "concat sccs = concat (take (Suc i) sccs) @ concat (drop (Suc i) sccs)"
      by (metis concat_append)
    then show ?thesis using r unfolding scc_result_def by (metis distinct_append)
  qed
  have c1: "succ_closed g (set (concat (take (Suc i) sccs)))"
    and c0: "succ_closed g (set (concat (take i sccs)))"
    using r i unfolding scc_result_def by auto
  have "a \<in> set (concat (take (Suc i) sccs))" using ai split by simp
  then have "b \<in> set (concat (take (Suc i) sccs))"
    using succ_closed_rtrancl[OF c1] ab by (simp add: depends_on_def)
  then have "b \<in> set (concat (take i sccs)) \<or> b \<in> set (sccs ! i)" using split by auto
  moreover have "b \<notin> set (concat (take i sccs))"
  proof
    assume "b \<in> set (concat (take i sccs))"
    then have "a \<in> set (concat (take i sccs))"
      using succ_closed_rtrancl[OF c0] ba by (simp add: depends_on_def)
    then show False using d ai unfolding split by auto
  qed
  ultimately show ?thesis using i ai by auto
qed

subsection \<open>Runs of the component search that return\<close>

lemma sc_part_0: "sc_part 0 g v st"
  by (simp add: sc_part_def)

lemma sc_part_Suc:
  assumes ih: "ve_part d g v (graph_get g v) (push v st)"
  shows "sc_part (Suc d) g v st"
  unfolding sc_part_def
proof (intro impI allI)
  fix st'
  assume t: "tinv g st" and nv: "v \<notin> visited st" and vn: "v \<in> nodes g"
    and r: "strongconnect (Suc d) g v st = Inr st'"
  from r obtain st2 where ve: "visit_edges d g v (graph_get g v) (push v st) = Inr st2"
    and fin: "finish v st2 = Inr st'"
    unfolding strongconnect_Suc
    by (cases "visit_edges d g v (graph_get g v) (push v st)") simp_all
  have li: "loop_inv g v (stack st) {} (push v st)" using t nv vn by (rule loop_inv_push)
  have "set (graph_get g v) \<subseteq> succs g v" by (simp add: succs_def)
  with ih li ve have li2: "loop_inv g v (stack st) ({} \<union> set (graph_get g v)) st2"
    and fr: "frame (push v st) st2 {v}"
    unfolding ve_part_def by blast+
  have li2': "loop_inv g v (stack st) (succs g v) st2" using li2 by (simp add: succs_def)
  from finish_ok[OF t nv li2' fr] obtain st3 where "finish v st2 = Inr st3" "sc_post g v st st3"
    by blast
  then show "sc_post g v st st'" using fin by simp
qed

lemma ve_part_Nil: "ve_part d g v [] st"
  unfolding ve_part_def by (auto simp: frame_refl)

lemma ve_part_Cons:
  assumes ih1: "indices st w = None \<Longrightarrow> sc_part d g w st"
    and ih2: "\<And>b. indices st w = None \<Longrightarrow> strongconnect d g w st = Inr b
        \<Longrightarrow> lowlink b v = Some (low b v) \<Longrightarrow> lowlink b w = Some (low b w)
        \<Longrightarrow> ve_part d g v ws (set_low v (min (low b v) (low b w)) b)"
    and ih3: "indices st w \<noteq> None \<Longrightarrow> w \<in> onstack st
        \<Longrightarrow> lowlink st v = Some (low st v) \<Longrightarrow> indices st w = Some (idx st w)
        \<Longrightarrow> ve_part d g v ws (set_low v (min (low st v) (idx st w)) st)"
    and ih4: "indices st w \<noteq> None \<Longrightarrow> w \<notin> onstack st \<Longrightarrow> ve_part d g v ws st"
  shows "ve_part d g v (w # ws) st"
  unfolding ve_part_def
proof (intro allI impI)
  fix S0 dn st'
  assume li: "loop_inv g v S0 dn st" and sub: "set (w # ws) \<subseteq> succs g v"
    and r: "visit_edges d g v (w # ws) st = Inr st'"
  have t: "tinv g st" and v: "v \<in> visited st" using li by (simp_all add: loop_inv_def)
  have wn: "w \<in> nodes g" using sub succs_nodes by auto
  have sub': "set ws \<subseteq> succs g v" using sub by simp
  have un: "insert w dn \<union> set ws = dn \<union> set (w # ws)" by auto
  show "loop_inv g v S0 (dn \<union> set (w # ws)) st' \<and> frame st st' {v}"
  proof (cases "indices st w = None")
    case True
    then have nw: "w \<notin> visited st" by (auto simp: visited_def)
    from r True obtain b where sc: "strongconnect d g w st = Inr b"
      by (cases "strongconnect d g w st") simp_all
    have post: "sc_post g w st b" using ih1[OF True] t nw wn sc unfolding sc_part_def by blast
    have tb: "tinv g b" and frb: "frame st b {}" and wb: "w \<in> visited b"
      using post by (simp_all add: sc_post_def)
    have vb: "v \<in> visited b" using v frame_visited[OF frb] by auto
    let ?b = "set_low v (min (low b v) (low b w)) b"
    have lib: "loop_inv g v S0 (insert w dn) ?b" using li post nw by (rule loop_inv_child)
    have ve: "visit_edges d g v ws ?b = Inr st'"
      using r True sc tinv_lookup(2)[OF tb vb] tinv_lookup(2)[OF tb wb]
      by (simp add: set_low_eq)
    from ih2[OF True sc tinv_lookup(2)[OF tb vb] tinv_lookup(2)[OF tb wb]] lib sub' ve
    have li': "loop_inv g v S0 (insert w dn \<union> set ws) st'" and fr': "frame ?b st' {v}"
      unfolding ve_part_def by blast+
    have "frame st ?b {v}" using frb by (rule frame_child)
    then have "frame st st' ({v} \<union> {v})" using fr' by (rule frame_trans)
    then show ?thesis using li' un by simp
  next
    case False
    then have wv: "w \<in> visited st" by (auto simp: visited_def)
    show ?thesis
    proof (cases "w \<in> onstack st")
      case True
      let ?b = "set_low v (min (low st v) (idx st w)) st"
      have lib: "loop_inv g v S0 (insert w dn) ?b" using li True by (rule loop_inv_onstack)
      have ve: "visit_edges d g v ws ?b = Inr st'"
        using r True tinv_lookup(2)[OF t v] tinv_lookup(1)[OF t wv]
        by (simp add: set_low_eq False)
      from ih3[OF False True tinv_lookup(2)[OF t v] tinv_lookup(1)[OF t wv]] lib sub' ve
      have li': "loop_inv g v S0 (insert w dn \<union> set ws) st'" and fr': "frame ?b st' {v}"
        unfolding ve_part_def by blast+
      have "frame st st' ({v} \<union> {v})" using frame_set_low fr' by (rule frame_trans)
      then show ?thesis using li' un by simp
    next
      case nos: False
      have lib: "loop_inv g v S0 (insert w dn) st" using li wv nos by (rule loop_inv_popped)
      have ve: "visit_edges d g v ws st = Inr st'" using r nos by (simp add: False)
      from ih4[OF False nos] lib sub' ve
      have "loop_inv g v S0 (insert w dn \<union> set ws) st'" "frame st st' {v}"
        unfolding ve_part_def by blast+
      then show ?thesis using un by simp
    qed
  qed
qed

lemma strongconnect_visit_edges_part:
  "sc_part d g v st" "ve_part d' g' v' ws st'"
proof (induction d g v st and d' g' v' ws st' rule: strongconnect_visit_edges.induct)
  case (1 g v st)
  show ?case by (rule sc_part_0)
next
  case (2 d g v st)
  then show ?case unfolding push_eq by (rule sc_part_Suc)
next
  case (3 d g v st)
  show ?case by (rule ve_part_Nil)
next
  case (4 d g v w ws st)
  show ?case
  proof (rule ve_part_Cons)
    show "indices st w = None \<Longrightarrow> sc_part d g w st" by (rule 4(1))
    show "ve_part d g v ws (set_low v (min (low b v) (low b w)) b)"
      if a: "indices st w = None" "strongconnect d g w st = Inr b"
        and l: "lowlink b v = Some (low b v)" "lowlink b w = Some (low b w)" for b
      using 4(2)[OF a refl l] by (simp add: set_low_eq)
    show "ve_part d g v ws (set_low v (min (low st v) (idx st w)) st)"
      if a: "indices st w \<noteq> None" "w \<in> onstack st"
        and l: "lowlink st v = Some (low st v)" "indices st w = Some (idx st w)"
      using 4(3)[OF a refl l] by (simp add: set_low_eq)
    show "indices st w \<noteq> None \<Longrightarrow> w \<notin> onstack st \<Longrightarrow> ve_part d g v ws st" by (rule 4(4))
  qed
qed

text \<open>Every run of \<open>strongconnect\<close> that returns establishes its postcondition.\<close>

lemma strongconnect_returns_post:
  "tinv g st \<Longrightarrow> v \<notin> visited st \<Longrightarrow> v \<in> nodes g \<Longrightarrow> strongconnect d g v st = Inr st'
   \<Longrightarrow> sc_post g v st st'"
  using strongconnect_visit_edges_part(1)[of d g v st] unfolding sc_part_def by blast

lemma scc_loop_part:
  "tinv g st \<Longrightarrow> stack st = [] \<Longrightarrow> set vs \<subseteq> nodes g \<Longrightarrow> scc_loop limit g vs st = Inr st'
   \<Longrightarrow> tinv g st' \<and> stack st' = [] \<and> visited st \<union> set vs \<subseteq> visited st'"
proof (induction vs arbitrary: st)
  case Nil
  then show ?case by simp
next
  case (Cons v vs)
  have sub: "set vs \<subseteq> nodes g" using Cons.prems(3) by simp
  show ?case
  proof (cases "indices st v = None")
    case True
    then have nv: "v \<notin> visited st" by (auto simp: visited_def)
    have vn: "v \<in> nodes g" using Cons.prems(3) by simp
    from Cons.prems(4) True obtain st1 where sc: "strongconnect limit g v st = Inr st1"
      and rest: "scc_loop limit g vs st1 = Inr st'"
      by (cases "strongconnect limit g v st") simp_all
    have post: "sc_post g v st st1"
      using Cons.prems(1) nv vn sc by (rule strongconnect_returns_post)
    from post show ?thesis
    proof (rule sc_postE)
      fix new
      assume t1: "tinv g st1" and fr: "frame st st1 {}" and v1: "v \<in> visited st1"
        and lb: "index st \<le> low st1 v \<or> (\<exists>y \<in> set (stack st). idx st y \<le> low st1 v)"
        and stk: "stack st1 = new @ stack st"
        and root: "new \<noteq> [] \<Longrightarrow> last new = v \<and> low st1 v < index st"
      have "index st \<le> low st1 v" using lb Cons.prems(2) by simp
      then have "new = []" using root by fastforce
      then have s1: "stack st1 = []" using stk Cons.prems(2) by simp
      have vis: "visited st \<subseteq> visited st1" using fr by (rule frame_visited)
      from Cons.IH[OF t1 s1 sub rest]
      have "tinv g st'" "stack st' = []" "visited st1 \<union> set vs \<subseteq> visited st'" by blast+
      then show ?thesis using vis v1 by auto
    qed
  next
    case False
    then have vv: "v \<in> visited st" by (auto simp: visited_def)
    have rest: "scc_loop limit g vs st = Inr st'" using Cons.prems(4) by (simp add: False)
    from Cons.IH[OF Cons.prems(1,2) sub rest] show ?thesis using vv by auto
  qed
qed

lemma final_state_result:
  assumes t: "tinv g st" and s: "stack st = []" and vis: "set (map fst g) \<subseteq> visited st"
  shows "scc_result g (components st)"
proof -
  have cc: "set (concat (components st)) = visited st" using t s by (simp add: tinv_def)
  have "succ_closed g (set (concat (take (length (components st)) (components st))))"
    using t unfolding tinv_def by blast
  then have cl: "succ_closed g (visited st)" using cc by simp
  have "nodes g \<subseteq> visited st"
  proof
    fix x assume "x \<in> nodes g"
    then consider "x \<in> set (map fst g)" | k where "k \<in> set (map fst g)" "x \<in> succs g k"
      by (auto simp: nodes_def succs_def)
    then show "x \<in> visited st"
    proof cases
      case 1 then show ?thesis using vis by auto
    next
      case 2 then show ?thesis using vis cl by (auto simp: succ_closed_def)
    qed
  qed
  moreover have "visited st \<subseteq> nodes g" using t by (simp add: tinv_def)
  ultimately have "set (concat (components st)) = nodes g" using cc by auto
  moreover have "distinct (concat (components st))" "[] \<notin> set (components st)"
    "\<forall>k \<le> length (components st). succ_closed g (set (concat (take k (components st))))"
    using t by (simp_all add: tinv_def)
  ultimately show ?thesis by (simp add: scc_result_def)
qed

text \<open>Every run of the component search that returns, under any recursion limit, returns
  a partition of the nodes that splits no strongly connected set.\<close>

lemma strongly_connected_components_part:
  assumes "strongly_connected_components limit g = Inr sccs"
  shows "scc_result g sccs"
proof -
  from assms obtain st where loop: "scc_loop limit g (map fst g) init_state = Inr st"
    and c: "sccs = components st"
    unfolding strongly_connected_components_def
    by (cases "scc_loop limit g (map fst g) init_state") auto
  have "set (map fst g) \<subseteq> nodes g" by (auto simp: nodes_def)
  from scc_loop_part[OF tinv_init _ this loop]
  have "tinv g st" "stack st = []" "set (map fst g) \<subseteq> visited st" by auto
  then show ?thesis unfolding c by (rule final_state_result)
qed

section \<open>Recursion depth of the component search\<close>

lemma chain_node_inj: "chain_node i = chain_node j \<Longrightarrow> i = j"
proof -
  assume "chain_node i = chain_node j"
  then have "length (chain_node i) = length (chain_node j)" by simp
  then show "i = j" by (simp add: chain_node_def)
qed

lemma map_of_keyed:
  "(\<And>a b. f a = f b \<Longrightarrow> a = b) \<Longrightarrow> i \<in> set xs
   \<Longrightarrow> map_of (map (\<lambda>i. (f i, h i)) xs) (f i) = Some (h i)"
  by (induction xs) auto

lemma graph_get_chain:
  "Suc i < n \<Longrightarrow> graph_get (chain_graph n) (chain_node i) = [chain_node (Suc i)]"
proof -
  assume a: "Suc i < n"
  have "map_of (chain_graph n) (chain_node i)
        = Some (if Suc i < n then [chain_node (Suc i)] else [])"
    unfolding chain_graph_def using a by (intro map_of_keyed chain_node_inj) auto
  then show ?thesis using a by (simp add: graph_get_def)
qed

lemma strongconnect_chain:
  "i + d < n \<Longrightarrow> (\<And>j. i \<le> j \<Longrightarrow> indices st (chain_node j) = None)
   \<Longrightarrow> strongconnect d (chain_graph n) (chain_node i) st = Inl RecursionError"
proof (induction d arbitrary: i st)
  case 0
  show ?case by simp
next
  case (Suc d)
  have lt: "Suc i < n" using Suc.prems(1) by simp
  have un: "indices (push (chain_node i) st) (chain_node j) = None" if "Suc i \<le> j" for j
  proof -
    have "chain_node j \<noteq> chain_node i" using that chain_node_inj[of j i] by auto
    then show ?thesis using Suc.prems(2)[of j] that by (simp add: push_def)
  qed
  have "strongconnect d (chain_graph n) (chain_node (Suc i)) (push (chain_node i) st)
        = Inl RecursionError"
    using Suc.prems(1) un by (intro Suc.IH) auto
  then have "visit_edges d (chain_graph n) (chain_node i) [chain_node (Suc i)]
               (push (chain_node i) st) = Inl RecursionError"
    using un[of "Suc i"] by simp
  then show ?case unfolding strongconnect_Suc graph_get_chain[OF lt] by simp
qed

lemma chain_recursion_error:
  "strongly_connected_components limit (chain_graph (Suc limit)) = Inl RecursionError"
proof -
  have keys: "map fst (chain_graph (Suc limit))
      = chain_node 0 # map chain_node [1..<Suc limit]"
    by (simp add: chain_graph_def upt_conv_Cons comp_def del: upt_Suc)
  have "strongconnect limit (chain_graph (Suc limit)) (chain_node 0) init_state
        = Inl RecursionError"
    by (rule strongconnect_chain) (simp_all add: init_state_def)
  then show ?thesis
    unfolding strongly_connected_components_def keys by (simp add: init_state_def)
qed

text \<open>
  Claim C6, as stated, fails: \<open>strongconnect\<close> is a recursive function, and the search
  relies on \<open>sys.setrecursionlimit\<close>. With 10000 frames available, the dependency chain of
  10001 functions (each calling the next) ends in \<open>RecursionError\<close>.
\<close>

theorem scc_chain_recursion_error:
  "strongly_connected_components 10000 (chain_graph 10001) = Inl RecursionError"
  using chain_recursion_error[of 10000] by simp

text \<open>
  Claim C6, amended. The component search recurses natively, one frame per level of the
  depth-first search: it returns its components whenever the number of available frames is
  at least the number of nodes of the graph, and it raises \<open>RecursionError\<close> on the dependency
  chain that is one node longer than the number of available frames.
\<close>

theorem scc_recursion_depth:
  "(card (nodes g) \<le> limit \<longrightarrow> (\<exists>sccs. strongly_connected_components limit g = Inr sccs))
   \<and> strongly_connected_components limit (chain_graph (Suc limit)) = Inl RecursionError"
  using strongly_connected_components_ok[of g limit] chain_recursion_error[of limit] by blast

theorem scc_recursion_depth_witness:
  "card (nodes (chain_graph 3)) \<le> 3
   \<and> (\<exists>sccs. strongly_connected_components 3 (chain_graph 3) = Inr sccs)
   \<and> strongly_connected_components 3 (chain_graph (Suc 3)) = Inl RecursionError"
proof -
  have c: "card (nodes (chain_graph 3)) \<le> 3" by code_simp
  show ?thesis using c scc_recursion_depth[of "chain_graph 3" 3] by blast
qed

section \<open>Packing coarsens the partition\<close>

lemma together_iff:
  "together comps a b \<longleftrightarrow> (\<exists>c \<in> set comps. a \<in> set (names c) \<and> b \<in> set (names c))"
  by (simp add: together_def list_ex_iff)

lemma comps_inv_iff:
  "comps_inv comps \<longleftrightarrow> distinct (all_names comps)
     \<and> (\<forall>c \<in> set comps. names c \<noteq> [] \<and> names c = map name (items c))"
  by (simp add: comps_inv_def list_all_iff)

lemma comps_inv_nonempty: "comps_inv comps \<Longrightarrow> c \<in> set comps \<Longrightarrow> names c \<noteq> []"
  unfolding comps_inv_iff by blast

lemma comps_inv_names: "comps_inv comps \<Longrightarrow> c \<in> set comps \<Longrightarrow> names c = map name (items c)"
  unfolding comps_inv_iff by blast

lemma comps_inv_all_distinct: "comps_inv comps \<Longrightarrow> distinct (all_names comps)"
  unfolding comps_inv_iff by blast

lemma coarsens_refl: "comps_inv comps \<Longrightarrow> coarsens comps comps"
  by (simp add: coarsens_def)

lemma coarsens_trans: "coarsens a b \<Longrightarrow> coarsens b c \<Longrightarrow> coarsens a c"
  by (simp add: coarsens_def)

lemma mset_all_names: "mset (all_names comps) = (\<Sum>c\<in>#mset comps. mset (names c))"
  by (induction comps) (simp_all add: all_names_def)

lemma mset_all_items: "mset (all_items comps) = (\<Sum>c\<in>#mset comps. mset (items c))"
  by (induction comps) (simp_all add: all_items_def)

lemma comps_inv_distinct: "comps_inv comps \<Longrightarrow> distinct comps"
proof (induction comps)
  case Nil
  then show ?case by simp
next
  case (Cons c cs)
  have "distinct (all_names (c # cs))" using Cons.prems by (rule comps_inv_all_distinct)
  then have dcs: "distinct (all_names cs)" by (simp add: all_names_def)
  have inv: "comps_inv cs" unfolding comps_inv_iff
    using dcs comps_inv_nonempty[OF Cons.prems] comps_inv_names[OF Cons.prems] by simp
  have "c \<notin> set cs"
  proof
    assume "c \<in> set cs"
    then have "set (names c) \<subseteq> set (all_names cs)" by (auto simp: all_names_def)
    moreover have "set (names c) \<inter> set (all_names cs) = {}"
    proof -
      have "distinct (all_names (c # cs))" using Cons.prems by (rule comps_inv_all_distinct)
      then have "distinct (names c @ all_names cs)" by (simp add: all_names_def)
      then show ?thesis by simp
    qed
    moreover have "names c \<noteq> []" using Cons.prems by (rule comps_inv_nonempty) simp
    ultimately show False by (cases "names c") auto
  qed
  then show ?case using Cons.IH[OF inv] by simp
qed

text \<open>Replacing the components \<open>sel\<close> by their union \<open>m\<close>.\<close>

lemma merge_replace_coarsens:
  assumes inv: "comps_inv comps" and ne: "sel \<noteq> []" and d: "distinct sel"
    and sub: "set sel \<subseteq> set comps"
    and nm: "names m = concat (map names sel)" and im: "items m = concat (map items sel)"
  shows "coarsens comps (filter (\<lambda>c. c \<notin> set sel) comps @ [m])"
proof -
  let ?rest = "filter (\<lambda>c. c \<notin> set sel) comps"
  let ?new = "?rest @ [m]"
  have dc: "distinct comps" using inv by (rule comps_inv_distinct)
  have "mset (filter (\<lambda>c. c \<in> set sel) comps) = mset sel"
    using dc d sub by (intro set_eq_iff_mset_eq_distinct[THEN iffD1]) auto
  then have split: "mset comps = mset sel + mset ?rest"
    by (metis multiset_partition mset_filter)
  have n1: "mset (names m) = (\<Sum>c\<in>#mset sel. mset (names c))"
    unfolding nm using mset_all_names[of sel] by (simp add: all_names_def)
  have i1: "mset (items m) = (\<Sum>c\<in>#mset sel. mset (items c))"
    unfolding im using mset_all_items[of sel] by (simp add: all_items_def)
  have sum_split: "(\<Sum>c\<in>#mset comps. f c) = (\<Sum>c\<in>#mset sel. f c) + (\<Sum>c\<in>#mset ?rest. f c)"
    for f :: "Component \<Rightarrow> 'b multiset"
    using arg_cong[OF split, of "\<lambda>M. \<Sum>c\<in>#M. f c"] by (simp del: mset_filter)
  have names_eq: "mset (all_names ?new) = mset (all_names comps)"
    unfolding mset_all_names sum_split[of "\<lambda>c. mset (names c)"] using n1
    by (simp del: mset_filter)
  have items_eq: "mset (all_items ?new) = mset (all_items comps)"
    unfolding mset_all_items sum_split[of "\<lambda>c. mset (items c)"] using i1
    by (simp del: mset_filter)
  have dist: "distinct (all_names ?new)"
    using names_eq inv by (metis comps_inv_iff mset_eq_imp_distinct_iff)
  obtain s0 where s0: "s0 \<in> set sel" using ne by (cases sel) auto
  have sel1: "\<And>c. c \<in> set sel \<Longrightarrow> names c \<noteq> []"
    using comps_inv_nonempty[OF inv] sub by blast
  have sel2: "\<And>c. c \<in> set sel \<Longrightarrow> names c = map name (items c)"
    using comps_inv_names[OF inv] sub by blast
  have m1: "names m \<noteq> []" using s0 sel1[OF s0] unfolding nm by auto
  have "map names sel = map (\<lambda>c. map name (items c)) sel"
    by (rule map_cong[OF refl]) (rule sel2)
  then have "concat (map names sel) = concat (map (\<lambda>c. map name (items c)) sel)"
    by (rule arg_cong)
  then have m2: "names m = map name (items m)"
    unfolding nm im by (simp only: map_concat map_map comp_def)
  have inv': "comps_inv ?new"
    unfolding comps_inv_iff
  proof (intro conjI ballI)
    show "distinct (all_names ?new)" by (rule dist)
    fix c assume "c \<in> set ?new"
    then consider "c = m" | "c \<in> set comps" by auto
    then show "names c \<noteq> []"
      using m1 comps_inv_nonempty[OF inv] by cases auto
    from \<open>c \<in> set ?new\<close> consider "c = m" | "c \<in> set comps" by auto
    then show "names c = map name (items c)"
      using m2 comps_inv_names[OF inv] by cases auto
  qed
  have tog: "together ?new a b" if t: "together comps a b" for a b
  proof -
    from t obtain c where c: "c \<in> set comps" "a \<in> set (names c)" "b \<in> set (names c)"
      by (auto simp: together_iff)
    show ?thesis
    proof (cases "c \<in> set sel")
      case True
      then have "set (names c) \<subseteq> set (names m)" unfolding nm by auto
      then show ?thesis using c by (auto simp: together_iff)
    next
      case False
      then show ?thesis using c by (auto simp: together_iff)
    qed
  qed
  show ?thesis unfolding coarsens_def using inv' names_eq items_eq tog by blast
qed


lemma coarsens_inv: "coarsens a b \<Longrightarrow> comps_inv b"
  by (simp add: coarsens_def)

lemma merge_components_fields [simp]:
  "names (merge_components a b n) = names a @ names b"
  "items (merge_components a b n) = items a @ items b"
  by (simp_all add: merge_components_def Let_def)

lemma foldl_merge_names:
  "names (foldl (\<lambda>m c. merge_components m c None) a cs) = names a @ concat (map names cs)"
  by (induction cs arbitrary: a) simp_all

lemma foldl_merge_items:
  "items (foldl (\<lambda>m c. merge_components m c None) a cs) = items a @ concat (map items cs)"
  by (induction cs arbitrary: a) simp_all

lemma merged_all_names:
  "sel \<noteq> [] \<Longrightarrow>
   names ((foldl (\<lambda>m c. merge_components m c None) (hd sel) (tl sel))\<lparr>module_name := n\<rparr>)
     = concat (map names sel)"
  by (cases sel) (simp_all add: foldl_merge_names)

lemma merged_all_items:
  "sel \<noteq> [] \<Longrightarrow>
   items ((foldl (\<lambda>m c. merge_components m c None) (hd sel) (tl sel))\<lparr>module_name := n\<rparr>)
     = concat (map items sel)"
  by (cases sel) (simp_all add: foldl_merge_items)

lemma merge_selected_coarsens:
  assumes inv: "comps_inv comps" and len: "length (filter P comps) > 1"
  shows "coarsens comps (filter (\<lambda>c. c \<notin> set (filter P comps)) comps
     @ [(foldl (\<lambda>m c. merge_components m c None) (hd (filter P comps)) (tl (filter P comps)))
          \<lparr>module_name := n\<rparr>])"
proof (rule merge_replace_coarsens[OF inv])
  show ne: "filter P comps \<noteq> []" using len by auto
  show "distinct (filter P comps)" using comps_inv_distinct[OF inv] by simp
  show "set (filter P comps) \<subseteq> set comps" by auto
  show "names ((foldl (\<lambda>m c. merge_components m c None) (hd (filter P comps))
      (tl (filter P comps)))\<lparr>module_name := n\<rparr>) = concat (map names (filter P comps))"
    using ne by (rule merged_all_names)
  show "items ((foldl (\<lambda>m c. merge_components m c None) (hd (filter P comps))
      (tl (filter P comps)))\<lparr>module_name := n\<rparr>) = concat (map items (filter P comps))"
    using ne by (rule merged_all_items)
qed

lemma group_assignments_step_coarsens:
  assumes "comps_inv comps"
  shows "coarsens comps (group_assignments_step comps)"
proof (cases "length (filter assign_only comps) > 1")
  case True
  then show ?thesis
    unfolding group_assignments_step_def Let_def
    using merge_selected_coarsens[OF assms True] by (simp only: if_True)
next
  case False
  then show ?thesis
    unfolding group_assignments_step_def Let_def
    using coarsens_refl[OF assms] by (simp only: if_False)
qed

lemma pack_small_step_coarsens:
  assumes "comps_inv comps"
  shows "coarsens comps (pack_small_step threshold comps)"
proof (cases "length (filter (\<lambda>c. int (comp_lines c) < threshold \<and> \<not> assign_only c) comps) > 1")
  case True
  then show ?thesis
    unfolding pack_small_step_def Let_def
    using merge_selected_coarsens[OF assms True] by (simp only: if_True)
next
  case False
  then show ?thesis
    unfolding pack_small_step_def Let_def
    using coarsens_refl[OF assms] by (simp only: if_False)
qed

lemma merge_pair_coarsens:
  assumes inv: "comps_inv comps" and a: "a \<in> set comps" and b: "b \<in> set comps"
    and ne: "a \<noteq> b"
  shows "coarsens comps (filter (\<lambda>c. c \<noteq> a \<and> c \<noteq> b) comps @ [merge_components a b None])"
proof -
  have "coarsens comps (filter (\<lambda>c. c \<notin> set [a, b]) comps @ [merge_components a b None])"
    using inv
  proof (rule merge_replace_coarsens)
    show "[a, b] \<noteq> []" by simp
    show "distinct [a, b]" using ne by simp
    show "set [a, b] \<subseteq> set comps" using a b by simp
    show "names (merge_components a b None) = concat (map names [a, b])" by simp
    show "items (merge_components a b None) = concat (map items [a, b])" by simp
  qed
  then show ?thesis by simp
qed

lemma merge_smallest_once_Some:
  assumes "merge_smallest_once comps = Some comps'"
  obtains a b where "a \<in> set comps" "b \<in> set comps"
    "module_name a \<notin> set pinned" "module_name b \<notin> set pinned"
    "comps' = filter (\<lambda>c. c \<noteq> a \<and> c \<noteq> b) comps @ [merge_components a b None]"
    "distinct comps \<Longrightarrow> a \<noteq> b"
proof -
  define movable where "movable = filter (\<lambda>c. module_name c \<notin> set pinned) comps"
  define srt where "srt = sort_key comp_lines movable"
  have len: "\<not> length movable < 2"
    using assms by (auto simp: merge_smallest_once_def movable_def Let_def split: if_splits)
  then have "length srt \<ge> 2" by (simp add: srt_def)
  then obtain a b rest where srt: "srt = a # b # rest"
    by (cases srt; cases "tl srt") auto
  have c': "comps' = filter (\<lambda>c. c \<noteq> a \<and> c \<noteq> b) comps @ [merge_components a b None]"
    using assms len srt
    by (auto simp: merge_smallest_once_def movable_def[symmetric] srt_def[symmetric] Let_def)
  have "set srt = set movable" by (simp add: srt_def)
  then have ab: "a \<in> set movable" "b \<in> set movable" using srt by auto
  have "distinct srt" if "distinct comps" using that by (simp add: srt_def movable_def)
  then have "distinct comps \<Longrightarrow> a \<noteq> b" using srt by auto
  then show ?thesis using that[of a b] ab c' by (auto simp: movable_def)
qed

lemma merge_smallest_once_coarsens:
  assumes "merge_smallest_once comps = Some comps'" "comps_inv comps"
  shows "coarsens comps comps'"
proof (rule merge_smallest_once_Some[OF assms(1)])
  fix a b
  assume "a \<in> set comps" "b \<in> set comps"
    "comps' = filter (\<lambda>c. c \<noteq> a \<and> c \<noteq> b) comps @ [merge_components a b None]"
    "distinct comps \<Longrightarrow> a \<noteq> b"
  then show ?thesis
    using merge_pair_coarsens[OF assms(2), of a b] comps_inv_distinct[OF assms(2)] by simp
qed

lemma merge_down_to_coarsens: "comps_inv comps \<Longrightarrow> coarsens comps (merge_down_to n comps)"
proof (induction n comps rule: merge_down_to.induct)
  case (1 n comps)
  show ?case
  proof (cases "int (length comps) > n")
    case True
    show ?thesis
    proof (cases "merge_smallest_once comps")
      case None
      then show ?thesis using True "1.prems"
        by (subst merge_down_to.simps) (simp add: coarsens_refl)
    next
      case (Some comps')
      have c: "coarsens comps comps'" using Some "1.prems" by (rule merge_smallest_once_coarsens)
      have "coarsens comps' (merge_down_to n comps')"
        using "1.IH"[OF True Some] coarsens_inv[OF c] by simp
      then have "coarsens comps (merge_down_to n comps')" using c coarsens_trans by blast
      then show ?thesis using True Some by (subst merge_down_to.simps) simp
    qed
  next
    case False
    then show ?thesis using "1.prems" by (subst merge_down_to.simps) (simp add: coarsens_refl)
  qed
qed

lemma min_lines_loop_coarsens:
  "comps_inv comps \<Longrightarrow> coarsens comps (min_lines_loop n comps)"
proof (induction n comps rule: min_lines_loop.induct)
  case (1 n comps)
  let ?sm = "sort_key comp_lines
      (filter (\<lambda>c. int (comp_lines c) < n \<and> module_name c \<notin> set pinned) comps)"
  show ?case
  proof (cases ?sm)
    case Nil
    then show ?thesis using "1.prems" by (subst min_lines_loop.simps) (simp add: coarsens_refl)
  next
    case (Cons s r1)
    let ?ot = "sort_key comp_lines (filter (\<lambda>c. c \<noteq> s \<and> module_name c \<notin> set pinned) comps)"
    show ?thesis
    proof (cases ?ot)
      case Nil
      then show ?thesis using Cons "1.prems"
        by (subst min_lines_loop.simps) (simp add: coarsens_refl)
    next
      case ot: (Cons other r2)
      let ?next = "filter (\<lambda>c. c \<noteq> s \<and> c \<noteq> other) comps @ [merge_components s other None]"
      have "s \<in> set ?sm" unfolding Cons by simp
      then have s_in: "s \<in> set comps" by simp
      have "other \<in> set ?ot" unfolding ot by simp
      then have o_in: "other \<in> set comps" and ne: "s \<noteq> other" by auto
      have c: "coarsens comps ?next" using "1.prems" s_in o_in ne by (rule merge_pair_coarsens)
      have "coarsens ?next (min_lines_loop n ?next)"
        using "1.IH"[OF Cons ot] coarsens_inv[OF c] by simp
      then have "coarsens comps (min_lines_loop n ?next)" using c coarsens_trans by blast
      then show ?thesis using Cons ot by (subst min_lines_loop.simps) simp
    qed
  qed
qed

lemma repack_comps_coarsens:
  assumes "comps_inv comps"
  shows "coarsens comps (repack_comps cfg comps)"
proof -
  define c1 where "c1 = (if group_assignments cfg then group_assignments_step comps else comps)"
  define c2 where "c2 = (if pack_small_lines cfg \<noteq> 0 \<and> pack_small_lines cfg > 0
                    then pack_small_step (pack_small_lines cfg) c1 else c1)"
  define c3 where "c3 = (if max_modules cfg \<noteq> 0 then merge_down_to (max_modules cfg) c2 else c2)"
  define c4 where "c4 = (if min_module_lines cfg \<noteq> 0 \<and> min_module_lines cfg > 0
                    then min_lines_loop (min_module_lines cfg) c3 else c3)"
  define c5 where "c5 = (case target_modules cfg of None \<Rightarrow> c4
          | Some t \<Rightarrow> if t > 0 then merge_down_to t c4 else c4)"
  have r: "repack_comps cfg comps = c5"
    unfolding c5_def c4_def c3_def c2_def c1_def repack_comps_def Let_def by (rule refl)
  have 1: "coarsens comps c1"
    using assms by (simp add: c1_def group_assignments_step_coarsens coarsens_refl)
  have 2: "coarsens c1 c2"
    using coarsens_inv[OF 1] by (simp add: c2_def pack_small_step_coarsens coarsens_refl)
  have 3: "coarsens c2 c3"
    using coarsens_inv[OF 2] by (simp add: c3_def merge_down_to_coarsens coarsens_refl)
  have 4: "coarsens c3 c4"
    using coarsens_inv[OF 3] by (simp add: c4_def min_lines_loop_coarsens coarsens_refl)
  have 5: "coarsens c4 c5"
    using coarsens_inv[OF 4]
    by (simp add: c5_def merge_down_to_coarsens coarsens_refl split: option.splits)
  show ?thesis unfolding r using 1 2 3 4 5 coarsens_trans by blast
qed

section \<open>Extraction and component construction\<close>

lemma foldl_update_keys:
  "fst ` set (foldl (\<lambda>d kv. AList.update (fst kv) (snd kv) d) d0 kvs) = fst ` set d0 \<union> fst ` set kvs"
  by (induction kvs arbitrary: d0) (auto simp: dom_update)

lemma foldl_update_distinct:
  "distinct (map fst d0) \<Longrightarrow>
   distinct (map fst (foldl (\<lambda>d kv. AList.update (fst kv) (snd kv) d) d0 kvs))"
  by (induction kvs arbitrary: d0) (auto simp: distinct_update)

lemma foldl_update_map_of:
  "map_of (foldl (\<lambda>d kv. AList.update (fst kv) (snd kv) d) d0 kvs) = map_of d0 ++ map_of (rev kvs)"
proof (induction kvs arbitrary: d0)
  case Nil
  then show ?case by simp
next
  case (Cons kv kvs)
  have "map_of (AList.update (fst kv) (snd kv) d0) ++ map_of (rev kvs)
        = map_of d0 ++ ([fst kv \<mapsto> snd kv] ++ map_of (rev kvs))"
    by (rule ext) (auto simp: update_conv' map_add_def split: option.splits)
  then show ?case using Cons.IH[of "AList.update (fst kv) (snd kv) d0"]
    by (cases kv) simp
qed

lemma dict_of_keys: "fst ` set (dict_of kvs) = fst ` set kvs"
  by (simp add: dict_of_def foldl_update_keys)

lemma dict_of_distinct: "distinct (map fst (dict_of kvs))"
  by (simp add: dict_of_def foldl_update_distinct)

lemma map_of_dict_of: "map_of (dict_of kvs) = map_of (rev kvs)"
  by (simp add: dict_of_def foldl_update_map_of)

lemma map_of_dict_of_Some: "map_of (dict_of kvs) k = Some v \<Longrightarrow> (k, v) \<in> set kvs"
  unfolding map_of_dict_of by (drule map_of_SomeD) simp

lemma dict_of_distinct_keys: "distinct (map fst kvs) \<Longrightarrow> dict_of kvs = kvs"
proof (induction kvs rule: rev_induct)
  case Nil
  then show ?case by (simp add: dict_of_def)
next
  case (snoc kv kvs)
  then have ih: "dict_of kvs = kvs" and nin: "fst kv \<notin> fst ` set kvs" by auto
  have "AList.update k v al = al @ [(k, v)]" if "k \<notin> fst ` set al" for k v and al :: "('a \<times> 'b) list"
    using that by (induction al) auto
  then show ?case using ih nin by (simp add: dict_of_def)
qed


lemma name_set_deps [simp]: "name (set_deps ns it) = name it"
  by (simp add: set_deps_def)

lemma deps_set_deps: "set (deps (set_deps ns it)) \<subseteq> set ns"
  by (auto simp: set_deps_def visitor_used_def)

lemma extract_names:
  "map name (fst (extract_top_level_items tree)) = map name (concat (map node_items (body tree)))"
  by (simp add: extract_top_level_items_def Let_def comp_def)

lemma extract_deps_closed: "deps_closed (fst (extract_top_level_items tree))"
proof -
  let ?its = "concat (map node_items (body tree))"
  let ?ns = "map name ?its"
  have n: "map name (map (set_deps ?ns) ?its) = ?ns" by (simp add: comp_def)
  have "\<forall>it \<in> set (map (set_deps ?ns) ?its). set (deps it) \<subseteq> set ?ns"
  proof
    fix it assume "it \<in> set (map (set_deps ?ns) ?its)"
    then obtain it0 where "it = set_deps ?ns it0" by (auto simp del: set_concat)
    then show "set (deps it) \<subseteq> set ?ns" using deps_set_deps[of ?ns it0] by simp
  qed
  then have "deps_closed (map (set_deps ?ns) ?its)"
    unfolding deps_closed_def list_all_iff n by blast
  then show ?thesis by (simp add: extract_top_level_items_def Let_def)
qed

lemma set_iter_set [simp]: "set (iter_set rt v ds) = set ds"
  by (simp add: iter_set_def)

lemma distinct_iter_set: "distinct (iter_set rt v ds)"
  by (simp add: iter_set_def)

lemma items_graph_keys: "set (map fst (items_graph rt its)) = set (map name its)"
  using dict_of_keys[of "map (\<lambda>it. (name it, iter_set rt (name it) (deps it))) its"]
  by (simp add: items_graph_def image_image)

lemma items_graph_succs:
  assumes "w \<in> succs (items_graph rt its) k"
  shows "\<exists>it \<in> set its. name it = k \<and> w \<in> set (deps it)"
proof -
  from assms obtain ws where m: "map_of (items_graph rt its) k = Some ws" and w: "w \<in> set ws"
    by (cases "map_of (items_graph rt its) k") (auto simp: succs_def graph_get_def)
  from m have "(k, ws) \<in> set (map (\<lambda>it. (name it, iter_set rt (name it) (deps it))) its)"
    unfolding items_graph_def by (rule map_of_dict_of_Some)
  then show ?thesis using w by auto
qed

lemma nodes_items_graph:
  assumes "deps_closed its"
  shows "nodes (items_graph rt its) = set (map name its)"
proof
  show "nodes (items_graph rt its) \<subseteq> set (map name its)"
  proof
    fix x assume "x \<in> nodes (items_graph rt its)"
    then consider "x \<in> set (map fst (items_graph rt its))"
      | k where "x \<in> succs (items_graph rt its) k"
      by (auto simp: nodes_def succs_def)
    then show "x \<in> set (map name its)"
    proof cases
      case 1 then show ?thesis by (simp only: items_graph_keys)
    next
      case 2
      then obtain it where "it \<in> set its" "x \<in> set (deps it)"
        using items_graph_succs by blast
      then show ?thesis using assms unfolding deps_closed_def list_all_iff by blast
    qed
  qed
  show "set (map name its) \<subseteq> nodes (items_graph rt its)"
    using items_graph_keys[of rt its] by (auto simp: nodes_def)
qed

lemma item_by_name_Some:
  "map_of (item_by_name its) n = Some it \<Longrightarrow> name it = n \<and> it \<in> set its"
  unfolding item_by_name_def by (drule map_of_dict_of_Some) auto

lemma item_by_name_dom:
  assumes "n \<in> set (map name its)"
  shows "\<exists>it. map_of (item_by_name its) n = Some it"
proof -
  have "n \<in> fst ` set (item_by_name its)"
    using assms dict_of_keys[of "map (\<lambda>it. (name it, it)) its"]
    by (simp add: item_by_name_def image_image)
  then show ?thesis by (metis domD dom_map_of_conv_image_fst)
qed

lemma lookup_items_ok:
  "set s \<subseteq> set (map name its) \<Longrightarrow>
   \<exists>cits. lookup_items (item_by_name its) s = Inr cits \<and> map name cits = s
     \<and> list_all (\<lambda>it. map_of (item_by_name its) (name it) = Some it) cits"
proof (induction s)
  case Nil
  then show ?case by simp
next
  case (Cons n s)
  then obtain cits where c: "lookup_items (item_by_name its) s = Inr cits" "map name cits = s"
    "list_all (\<lambda>it. map_of (item_by_name its) (name it) = Some it) cits" by auto
  from Cons.prems obtain it where it: "map_of (item_by_name its) n = Some it"
    using item_by_name_dom[of n its] by auto
  then have "name it = n" using item_by_name_Some by blast
  then show ?case using c it by simp
qed

lemma seeded_seed_component:
  assumes "map name cits = s"
    "list_all (\<lambda>it. map_of (item_by_name its) (name it) = Some it) cits"
  shows "seeded rt its s (seed_component rt cits)"
proof -
  let ?srt = "sort_key (\<lambda>x. str_lower rt (name x)) cits"
  have "mset (map name ?srt) = mset (map name cits)" by simp
  moreover have "set ?srt = set cits" by simp
  moreover have "sorted (map (\<lambda>it. str_lower rt (name it)) ?srt)" by (rule sorted_sort_key)
  ultimately show ?thesis using assms
    by (simp add: seeded_def seed_component_def Let_def list_all_iff)
qed

lemma seed_components_ok:
  "\<forall>s \<in> set sccs. set s \<subseteq> set (map name its) \<Longrightarrow>
   \<exists>cs. seed_components rt (item_by_name its) sccs = Inr cs \<and> list_all2 (seeded rt its) sccs cs"
proof (induction sccs)
  case Nil
  then show ?case by simp
next
  case (Cons s sccs)
  then obtain cs where cs: "seed_components rt (item_by_name its) sccs = Inr cs"
    "list_all2 (seeded rt its) sccs cs" by auto
  from Cons.prems obtain cits where c: "lookup_items (item_by_name its) s = Inr cits"
    "map name cits = s"
    "list_all (\<lambda>it. map_of (item_by_name its) (name it) = Some it) cits"
    using lookup_items_ok[of s its] by auto
  have "seeded rt its s (seed_component rt cits)" using c(2,3) by (rule seeded_seed_component)
  then show ?case using cs c(1) by simp
qed

lemma seeded_mset: "seeded rt its s c \<Longrightarrow> mset (names c) = mset s"
  unfolding seeded_def by blast

lemma seeded_names: "seeded rt its s c \<Longrightarrow> names c = map name (items c)"
  unfolding seeded_def by blast

lemma seeded_lookup:
  "seeded rt its s c \<Longrightarrow> it \<in> set (items c) \<Longrightarrow> map_of (item_by_name its) (name it) = Some it"
  unfolding seeded_def list_all_iff by blast

lemma seeded_sorted: "seeded rt its s c \<Longrightarrow> sorted (map (\<lambda>it. str_lower rt (name it)) (items c))"
  unfolding seeded_def by blast

lemma seeded_all_names:
  "list_all2 (seeded rt its) sccs cs \<Longrightarrow> mset (all_names cs) = mset (concat sccs)"
proof (induction sccs cs rule: list_all2_induct)
  case Nil
  then show ?case by (simp add: all_names_def)
next
  case (Cons s sccs c cs)
  then show ?case using seeded_mset[OF Cons.hyps(1)] by (simp add: all_names_def)
qed

lemma list_all2_right: "list_all2 P xs ys \<Longrightarrow> y \<in> set ys \<Longrightarrow> \<exists>x \<in> set xs. P x y"
  by (induction xs ys rule: list_all2_induct) auto

lemma list_all2_left: "list_all2 P xs ys \<Longrightarrow> x \<in> set xs \<Longrightarrow> \<exists>y \<in> set ys. P x y"
  by (induction xs ys rule: list_all2_induct) auto

lemma comps_inv_perm:
  assumes "mset comps' = mset comps" "comps_inv comps"
  shows "comps_inv comps'"
proof -
  have "mset (all_names comps') = mset (all_names comps)"
    unfolding mset_all_names assms(1) ..
  then have "distinct (all_names comps')"
    using comps_inv_all_distinct[OF assms(2)] by (metis mset_eq_imp_distinct_iff)
  moreover have "set comps' = set comps" using assms(1) by (rule mset_eq_setD)
  ultimately show ?thesis
    unfolding comps_inv_iff
    using comps_inv_nonempty[OF assms(2)] comps_inv_names[OF assms(2)] by simp
qed

lemma all_items_lookup:
  "list_all P (all_items comps) \<longleftrightarrow> (\<forall>c \<in> set comps. \<forall>it \<in> set (items c). P it)"
  by (auto simp: all_items_def list_all_iff)

lemma seed_components_seeded:
  "seed_components rt (item_by_name its) sccs = Inr cs \<Longrightarrow> list_all2 (seeded rt its) sccs cs"
proof (induction sccs arbitrary: cs)
  case Nil
  then show ?case by simp
next
  case (Cons s sccs)
  from Cons.prems obtain cits cs0 where c: "lookup_items (item_by_name its) s = Inr cits"
    and cs0: "seed_components rt (item_by_name its) sccs = Inr cs0"
    and cs: "cs = seed_component rt cits # cs0"
    by (auto split: sum.splits)
  have "set s \<subseteq> set (map name its)"
  proof
    fix n assume "n \<in> set s"
    then have "map_of (item_by_name its) n \<noteq> None" using c
    proof (induction s arbitrary: cits)
      case Nil
      then show ?case by simp
    next
      case (Cons m s)
      then show ?case by (auto split: option.splits sum.splits)
    qed
    then obtain it where "map_of (item_by_name its) n = Some it" by blast
    then have "name it = n \<and> it \<in> set its" by (rule item_by_name_Some)
    then show "n \<in> set (map name its)" by auto
  qed
  from lookup_items_ok[OF this] c have "map name cits = s"
    "list_all (\<lambda>it. map_of (item_by_name its) (name it) = Some it) cits" by auto
  then have "seeded rt its s (seed_component rt cits)" by (rule seeded_seed_component)
  then show ?case using Cons.IH[OF cs0] cs by simp
qed

text \<open>What \<open>build_components\<close> returns, for every run that returns.\<close>

lemma build_components_part:
  assumes dc: "deps_closed its" and b: "build_components rt its = Inr comps"
  shows "built its comps"
    and "\<And>a b. a \<in> set (map name its) \<Longrightarrow> depends_on (items_graph rt its) a b
            \<Longrightarrow> depends_on (items_graph rt its) b a \<Longrightarrow> together comps a b"
    and "\<And>c. c \<in> set comps \<Longrightarrow> sorted (map (\<lambda>it. str_lower rt (name it)) (items c))"
proof -
  let ?g = "items_graph rt its"
  have nd: "nodes ?g = set (map name its)" using dc by (rule nodes_items_graph)
  from b obtain sccs cs where scc: "strongly_connected_components (frames rt) ?g = Inr sccs"
    and seed: "seed_components rt (item_by_name its) sccs = Inr cs"
    and comps: "comps = sort_key (external_dep_count ?g) cs"
    unfolding build_components_def Let_def by (auto split: sum.splits)
  have res: "scc_result ?g sccs" using scc by (rule strongly_connected_components_part)
  have all2: "list_all2 (seeded rt its) sccs cs" using seed by (rule seed_components_seeded)
  have cover: "set (concat sccs) = set (map name its)" and dist: "distinct (concat sccs)"
    and ne: "[] \<notin> set sccs"
    using res nd by (simp_all add: scc_result_def)
  have mn: "mset (all_names cs) = mset (concat sccs)" using all2 by (rule seeded_all_names)
  have cs_seeded: "\<exists>s \<in> set sccs. seeded rt its s c" if "c \<in> set cs" for c
    using list_all2_right[OF all2 that] .
  have inv_cs: "comps_inv cs"
    unfolding comps_inv_iff
  proof (intro conjI ballI)
    show "distinct (all_names cs)" using mn dist by (metis mset_eq_imp_distinct_iff)
    fix c assume c: "c \<in> set cs"
    then obtain s where s: "s \<in> set sccs" "seeded rt its s c" using cs_seeded by blast
    have "s \<noteq> []" using s(1) ne by auto
    then show "names c \<noteq> []" using seeded_mset[OF s(2)] by auto
    show "names c = map name (items c)" using s(2) by (rule seeded_names)
  qed
  have inv: "comps_inv comps" unfolding comps by (rule comps_inv_perm[OF _ inv_cs]) simp
  have "mset (all_names comps) = mset (all_names cs)" unfolding mset_all_names comps by simp
  then have "set (all_names comps) = set (concat sccs)" using mn by (metis mset_eq_setD)
  then have names: "set (all_names comps) = set (map name its)" using cover by simp
  have look: "list_all (\<lambda>it. map_of (item_by_name its) (name it) = Some it) (all_items comps)"
    unfolding all_items_lookup
  proof (intro ballI)
    fix c it assume "c \<in> set comps" "it \<in> set (items c)"
    then obtain s where "seeded rt its s c" using cs_seeded comps by auto
    then show "map_of (item_by_name its) (name it) = Some it"
      using \<open>it \<in> set (items c)\<close> by (rule seeded_lookup)
  qed
  show "built its comps" unfolding built_def using inv names look by blast
  show "together comps a b"
    if a: "a \<in> set (map name its)" and ab: "depends_on ?g a b" and ba: "depends_on ?g b a"
    for a b
  proof -
    have "a \<in> nodes ?g" using a nd by simp
    from scc_result_same_component[OF res this ab ba]
    obtain s where s: "s \<in> set sccs" "a \<in> set s" "b \<in> set s" by blast
    then obtain c where c: "c \<in> set cs" "seeded rt its s c"
      using list_all2_left[OF all2] by blast
    have "set (names c) = set s" using seeded_mset[OF c(2)] by (rule mset_eq_setD)
    then show ?thesis using s c(1) comps by (auto simp: together_iff)
  qed
  show "sorted (map (\<lambda>it. str_lower rt (name it)) (items c))" if "c \<in> set comps" for c
  proof -
    from that obtain s where "seeded rt its s c" using cs_seeded comps by auto
    then show ?thesis by (rule seeded_sorted)
  qed
qed

text \<open>\<open>build_components\<close> returns when the recursion limit leaves one frame for each
  distinct symbol.\<close>

lemma build_components_returns:
  assumes dc: "deps_closed its" and lim: "card (set (map name its)) \<le> frames rt"
  shows "\<exists>comps. build_components rt its = Inr comps"
proof -
  let ?g = "items_graph rt its"
  have nd: "nodes ?g = set (map name its)" using dc by (rule nodes_items_graph)
  then have "card (nodes ?g) \<le> frames rt" using lim by simp
  then obtain sccs where scc: "strongly_connected_components (frames rt) ?g = Inr sccs"
    and res: "scc_result ?g sccs"
    using strongly_connected_components_ok by blast
  have "set (concat sccs) = set (map name its)" using res nd by (simp add: scc_result_def)
  then have "\<forall>s \<in> set sccs. set s \<subseteq> set (map name its)" by auto
  then obtain cs where "seed_components rt (item_by_name its) sccs = Inr cs"
    using seed_components_ok by blast
  then show ?thesis by (simp add: build_components_def Let_def scc)
qed

section \<open>The plan of a file\<close>

lemma unique_module_names_names [simp]:
  "map names (unique_module_names cs used) = map names cs"
  by (induction cs arbitrary: used) (auto split: prod.splits)

lemma unique_module_names_items [simp]:
  "map items (unique_module_names cs used) = map items cs"
  by (induction cs arbitrary: used) (auto split: prod.splits)

lemma unique_module_names_all [simp]:
  "all_names (unique_module_names cs used) = all_names cs"
  "all_items (unique_module_names cs used) = all_items cs"
  by (simp_all add: all_names_def all_items_def)

lemma together_names:
  "map names cs' = map names cs \<Longrightarrow> together cs' a b = together cs a b"
proof -
  assume "map names cs' = map names cs"
  then have "set (map names cs') = set (map names cs)" by simp
  then have "names ` set cs' = names ` set cs" by simp
  then show ?thesis unfolding together_iff by (metis (no_types, lifting) image_iff)
qed

lemma comps_inv_fields:
  assumes "map names cs' = map names cs" "map items cs' = map items cs" "comps_inv cs"
  shows "comps_inv cs'"
proof -
  have len: "length cs' = length cs" using assms(1) by (metis length_map)
  have "all_names cs' = all_names cs" using assms(1) by (simp add: all_names_def)
  then have d: "distinct (all_names cs')" using comps_inv_all_distinct[OF assms(3)] by simp
  have "names c \<noteq> [] \<and> names c = map name (items c)" if "c \<in> set cs'" for c
  proof -
    from that obtain i where i: "i < length cs'" "c = cs' ! i" by (metis in_set_conv_nth)
    have "names (cs' ! i) = names (cs ! i)" using assms(1) i len by (metis nth_map)
    moreover have "items (cs' ! i) = items (cs ! i)" using assms(2) i len by (metis nth_map)
    moreover have "cs ! i \<in> set cs" using i len by simp
    ultimately show ?thesis
      using i comps_inv_nonempty[OF assms(3)] comps_inv_names[OF assms(3)] by simp
  qed
  then show ?thesis unfolding comps_inv_iff using d by blast
qed

lemma built_coarsens:
  assumes "built its comps" "coarsens comps comps'"
  shows "built its comps'"
proof -
  have "set (all_names comps') = set (all_names comps)"
    using assms(2) unfolding coarsens_def by (metis mset_eq_setD)
  moreover have "set (all_items comps') = set (all_items comps)"
    using assms(2) unfolding coarsens_def by (metis mset_eq_setD)
  ultimately show ?thesis
    using assms unfolding built_def coarsens_def list_all_iff by simp
qed

lemma built_unique:
  assumes "built its comps"
  shows "built its (unique_module_names comps used)"
proof -
  have ci: "comps_inv comps" using assms unfolding built_def by blast
  have "comps_inv (unique_module_names comps used)"
    by (rule comps_inv_fields[OF unique_module_names_names unique_module_names_items ci])
  moreover have "set (all_names (unique_module_names comps used)) = set (map name its)"
    using assms unfolding built_def by (simp only: unique_module_names_all)
  moreover have "list_all (\<lambda>it. map_of (item_by_name its) (name it) = Some it)
      (all_items (unique_module_names comps used))"
    using assms unfolding built_def by (simp only: unique_module_names_all)
  ultimately show ?thesis unfolding built_def by blast
qed

lemma all_items_names: "comps_inv comps \<Longrightarrow> map name (all_items comps) = all_names comps"
proof (induction comps)
  case Nil
  then show ?case by (simp add: all_items_def all_names_def)
next
  case (Cons c cs)
  have "distinct (all_names (c # cs))" using Cons.prems by (rule comps_inv_all_distinct)
  then have "distinct (all_names cs)" by (simp add: all_names_def)
  then have "comps_inv cs"
    unfolding comps_inv_iff
    using comps_inv_nonempty[OF Cons.prems] comps_inv_names[OF Cons.prems] by simp
  then have "map name (all_items cs) = all_names cs" by (rule Cons.IH)
  moreover have "names c = map name (items c)" using Cons.prems by (rule comps_inv_names) simp
  ultimately show ?case by (simp add: all_items_def all_names_def)
qed

lemma built_kept_items:
  assumes "built its comps"
  shows "mset (all_items comps) = mset (kept_items its)"
proof -
  let ?ibn = "item_by_name its"
  have inv: "comps_inv comps" and names: "set (all_names comps) = set (map name its)"
    and look: "\<And>it. it \<in> set (all_items comps) \<Longrightarrow> map_of ?ibn (name it) = Some it"
    using assms unfolding built_def list_all_iff by blast+
  have nm: "map name (all_items comps) = all_names comps" using inv by (rule all_items_names)
  have dk: "distinct (map fst ?ibn)" unfolding item_by_name_def by (rule dict_of_distinct)
  have keys: "fst ` set ?ibn = set (map name its)"
    using dict_of_keys[of "map (\<lambda>it. (name it, it)) its"]
    by (simp add: item_by_name_def image_image)
  have pair: "k = name v" if "(k, v) \<in> set ?ibn" for k v
  proof -
    have "map_of ?ibn k = Some v" using dk that by simp
    then show ?thesis using item_by_name_Some by blast
  qed
  have d1: "distinct (all_items comps)"
    using comps_inv_all_distinct[OF inv] nm by (metis distinct_map)
  have "map fst ?ibn = map name (map snd ?ibn)"
    using pair by (induction ?ibn) auto
  then have d2: "distinct (kept_items its)"
    unfolding kept_items_def using dk by (metis distinct_map)
  have "set (all_items comps) = set (kept_items its)"
  proof (intro set_eqI iffI)
    fix x assume "x \<in> set (all_items comps)"
    then have "map_of ?ibn (name x) = Some x" by (rule look)
    then have "(name x, x) \<in> set ?ibn" by (rule map_of_SomeD)
    then show "x \<in> set (kept_items its)" unfolding kept_items_def by force
  next
    fix v assume "v \<in> set (kept_items its)"
    then obtain k where kv: "(k, v) \<in> set ?ibn" unfolding kept_items_def by auto
    then have k: "k = name v" by (rule pair)
    have "k \<in> set (map name its)" using kv keys by force
    then have "k \<in> set (map name (all_items comps))" using names nm by simp
    then obtain x where x: "x \<in> set (all_items comps)" "name x = k" by auto
    then have "map_of ?ibn k = Some x" using look by auto
    moreover have "map_of ?ibn k = Some v" using dk kv by simp
    ultimately show "v \<in> set (all_items comps)" using x by simp
  qed
  then show ?thesis using d1 d2 by (simp add: set_eq_iff_mset_eq_distinct)
qed

lemma kept_items_distinct: "distinct (map name its) \<Longrightarrow> kept_items its = its"
proof -
  assume "distinct (map name its)"
  then have "distinct (map fst (map (\<lambda>it. (name it, it)) its))" by (simp add: comp_def)
  then have "dict_of (map (\<lambda>it. (name it, it)) its) = map (\<lambda>it. (name it, it)) its"
    by (rule dict_of_distinct_keys)
  then show ?thesis by (simp add: kept_items_def item_by_name_def comp_def)
qed

text \<open>The plan of a file without top-level symbols.\<close>

lemma plan_empty: "symbols tree = [] \<Longrightarrow> plan rt cfg tree = Inr None"
proof -
  assume "symbols tree = []"
  then have e: "fst (extract_top_level_items tree) = []" by (simp add: symbols_def)
  obtain its imps mb doc where ex: "extract_top_level_items tree = (its, imps, mb, doc)"
    by (metis prod.collapse)
  then have "its = []" using e by simp
  then show ?thesis unfolding plan_def ex by simp
qed

lemma plan_nonempty:
  assumes "symbols tree \<noteq> []"
  shows "plan rt cfg tree =
     (case build_components rt (fst (extract_top_level_items tree)) of
        Inl e \<Rightarrow> Inl e
      | Inr comps0 \<Rightarrow>
          Inr (Some (unique_module_names (repack_comps cfg comps0) [],
                     rebuild_name_to_module (repack_comps cfg comps0),
                     fst (snd (extract_top_level_items tree)), docstring tree)))"
proof -
  obtain its imps mb doc where ex: "extract_top_level_items tree = (its, imps, mb, doc)"
    by (metis prod.collapse)
  have nz: "its \<noteq> []" using assms ex by (auto simp: symbols_def)
  have doc: "doc = docstring tree"
    using ex by (simp add: extract_top_level_items_def Let_def)
  show ?thesis
    unfolding plan_def ex using nz doc
    by (simp add: repack_components_def Let_def split: sum.splits)
qed

text \<open>The plan of a file with top-level symbols, for every run that returns.\<close>

lemma plan_part:
  assumes p: "plan rt cfg tree = Inr (Some (comps, ntm, imps, doc))"
  obtains comps0 where
    "build_components rt (fst (extract_top_level_items tree)) = Inr comps0"
    "comps = unique_module_names (repack_comps cfg comps0) []"
    "ntm = rebuild_name_to_module (repack_comps cfg comps0)"
    "imps = fst (snd (extract_top_level_items tree))" "doc = docstring tree"
    "built (fst (extract_top_level_items tree)) comps0"
    "coarsens comps0 (repack_comps cfg comps0)"
    "\<And>a b. a \<in> set (symbols tree) \<Longrightarrow> depends_on (dependency_graph rt tree) a b
        \<Longrightarrow> depends_on (dependency_graph rt tree) b a \<Longrightarrow> together comps0 a b"
    "\<And>c. c \<in> set comps0 \<Longrightarrow> sorted (map (\<lambda>it. str_lower rt (name it)) (items c))"
proof -
  let ?its = "fst (extract_top_level_items tree)"
  have ne: "symbols tree \<noteq> []" using p plan_empty[of tree rt cfg] by auto
  from p obtain comps0 where b: "build_components rt ?its = Inr comps0"
    and c: "comps = unique_module_names (repack_comps cfg comps0) []"
    and n: "ntm = rebuild_name_to_module (repack_comps cfg comps0)"
    and i: "imps = fst (snd (extract_top_level_items tree))" and d: "doc = docstring tree"
    unfolding plan_nonempty[OF ne] by (auto split: sum.splits)
  have dc: "deps_closed ?its" by (rule extract_deps_closed)
  note bp = build_components_part[OF dc b]
  have co: "coarsens comps0 (repack_comps cfg comps0)"
    using bp(1) by (intro repack_comps_coarsens) (simp add: built_def)
  show ?thesis
    using that[OF b c n i d bp(1) co] bp(2,3) by (simp add: symbols_def dependency_graph_def)
qed

text \<open>The planning half returns when the recursion limit leaves one frame for each
  distinct symbol.\<close>

lemma plan_returns:
  assumes lim: "length (remdups (symbols tree)) \<le> frames rt"
  shows "\<exists>r. plan rt cfg tree = Inr r"
proof (cases "symbols tree = []")
  case True
  then show ?thesis by (simp add: plan_empty)
next
  case False
  let ?its = "fst (extract_top_level_items tree)"
  have dc: "deps_closed ?its" by (rule extract_deps_closed)
  have "card (set (map name ?its)) \<le> frames rt"
    using lim by (simp add: symbols_def length_remdups_card_conv)
  from build_components_returns[OF dc this] obtain comps0 where
    "build_components rt ?its = Inr comps0" by blast
  then show ?thesis unfolding plan_nonempty[OF False] by simp
qed

section \<open>The final components of a file\<close>

lemma planned_components_empty:
  "symbols tree = [] \<Longrightarrow> planned_components rt cfg tree = Inr []"
  by (simp add: planned_components_def plan_empty)

lemma planned_components_returns:
  assumes "length (remdups (symbols tree)) \<le> frames rt"
  shows "\<exists>comps. planned_components rt cfg tree = Inr comps"
proof -
  from plan_returns[OF assms, of cfg] obtain r where "plan rt cfg tree = Inr r" by blast
  then show ?thesis unfolding planned_components_def by (cases r) auto
qed

text \<open>The final components of a file, for every run that returns.\<close>

lemma planned_components_part:
  assumes pc: "planned_components rt cfg tree = Inr comps"
  shows "built (fst (extract_top_level_items tree)) comps"
    and "\<And>a b. a \<in> set (symbols tree) \<Longrightarrow> depends_on (dependency_graph rt tree) a b
        \<Longrightarrow> depends_on (dependency_graph rt tree) b a \<Longrightarrow> together comps a b"
proof -
  let ?its = "fst (extract_top_level_items tree)"
  have "built ?its comps \<and> (\<forall>a b. a \<in> set (symbols tree)
        \<longrightarrow> depends_on (dependency_graph rt tree) a b
        \<longrightarrow> depends_on (dependency_graph rt tree) b a \<longrightarrow> together comps a b)"
  proof (cases "symbols tree = []")
    case True
    have e: "?its = []" using True by (simp add: symbols_def)
    have "comps = []" using pc planned_components_empty[OF True, of rt cfg] by simp
    moreover have "built ?its []"
      unfolding e by (simp add: built_def comps_inv_def all_names_def all_items_def)
    ultimately show ?thesis using True by simp
  next
    case False
    from pc obtain ntm imps doc where p: "plan rt cfg tree = Inr (Some (comps, ntm, imps, doc))"
      unfolding planned_components_def plan_nonempty[OF False]
      by (auto split: sum.splits)
    from p show ?thesis
    proof (rule plan_part)
      fix comps0
      assume c: "comps = unique_module_names (repack_comps cfg comps0) []"
        and bl: "built ?its comps0" and co: "coarsens comps0 (repack_comps cfg comps0)"
        and tog: "\<And>a b. a \<in> set (symbols tree) \<Longrightarrow> depends_on (dependency_graph rt tree) a b
          \<Longrightarrow> depends_on (dependency_graph rt tree) b a \<Longrightarrow> together comps0 a b"
      have 2: "built ?its comps" unfolding c using built_coarsens[OF bl co] by (rule built_unique)
      have 3: "together comps a b"
        if "a \<in> set (symbols tree)" "depends_on (dependency_graph rt tree) a b"
          "depends_on (dependency_graph rt tree) b a" for a b
      proof -
        have "together comps0 a b" using that by (rule tog)
        then have "together (repack_comps cfg comps0) a b"
          using co unfolding coarsens_def by blast
        then show ?thesis
          unfolding c
          using together_names[of "unique_module_names (repack_comps cfg comps0) []"
              "repack_comps cfg comps0" a b] by simp
      qed
      show ?thesis using 2 3 by blast
    qed
  qed
  then show "built ?its comps"
    and "\<And>a b. a \<in> set (symbols tree) \<Longrightarrow> depends_on (dependency_graph rt tree) a b
        \<Longrightarrow> depends_on (dependency_graph rt tree) b a \<Longrightarrow> together comps a b"
    by blast+
qed

section \<open>Mutually dependent symbols stay together\<close>

text \<open>
  Claim C2. If \<open>a\<close> transitively depends on \<open>b\<close> and \<open>b\<close> on \<open>a\<close> in the extracted dependency
  graph, then \<open>a\<close> and \<open>b\<close> are members of one final component, under every packing
  configuration \<open>cfg\<close> and in every runtime \<open>rt\<close>: this holds of the final components of
  every run that returns, whatever the recursion limit; and a run returns whenever the
  limit leaves one frame for each distinct symbol.
\<close>

theorem mutual_dependents_share_component:
  assumes "a \<in> set (symbols tree)"
    and "depends_on (dependency_graph rt tree) a b" and "depends_on (dependency_graph rt tree) b a"
  shows "(\<forall>comps. planned_components rt cfg tree = Inr comps \<longrightarrow> together comps a b)
     \<and> (length (remdups (symbols tree)) \<le> frames rt
          \<longrightarrow> (\<exists>comps. planned_components rt cfg tree = Inr comps))"
proof (intro conjI allI impI)
  fix comps
  assume "planned_components rt cfg tree = Inr comps"
  then show "together comps a b" using assms by (rule planned_components_part(2))
next
  assume "length (remdups (symbols tree)) \<le> frames rt"
  then show "\<exists>comps. planned_components rt cfg tree = Inr comps"
    by (rule planned_components_returns)
qed

theorem mutual_dependents_share_component_witness:
  "''f'' \<in> set (symbols mutual_recursion_file)
   \<and> depends_on (dependency_graph example_runtime mutual_recursion_file) ''f'' ''g''
   \<and> depends_on (dependency_graph example_runtime mutual_recursion_file) ''g'' ''f''
   \<and> length (remdups (symbols mutual_recursion_file)) \<le> frames example_runtime
   \<and> (\<exists>comps. planned_components example_runtime (default_config\<lparr>pack_small_lines := 0\<rparr>)
         mutual_recursion_file = Inr comps \<and> together comps ''f'' ''g'')"
proof -
  have s: "symbols mutual_recursion_file = [''f'', ''g'', ''h'']" by code_simp
  have g: "dependency_graph example_runtime mutual_recursion_file
      = [(''f'', [''g'']), (''g'', [''f'']), (''h'', [])]" by code_simp
  have fg: "(''f'', ''g'') \<in> dep_edges (dependency_graph example_runtime mutual_recursion_file)"
    unfolding g by (simp add: dep_edges_def succs_def graph_get_def)
  have gf: "(''g'', ''f'') \<in> dep_edges (dependency_graph example_runtime mutual_recursion_file)"
    unfolding g by (simp add: dep_edges_def succs_def graph_get_def)
  have 1: "length (remdups (symbols mutual_recursion_file)) \<le> frames example_runtime"
    unfolding s by (simp add: example_runtime_def)
  have 2: "''f'' \<in> set (symbols mutual_recursion_file)" unfolding s by simp
  have 3: "depends_on (dependency_graph example_runtime mutual_recursion_file) ''f'' ''g''"
    unfolding depends_on_def using fg by (rule r_into_rtrancl)
  have 4: "depends_on (dependency_graph example_runtime mutual_recursion_file) ''g'' ''f''"
    unfolding depends_on_def using gf by (rule r_into_rtrancl)
  show ?thesis
    using 1 2 3 4 mutual_dependents_share_component[OF 2 3 4,
        of "default_config\<lparr>pack_small_lines := 0\<rparr>"]
    by blast
qed

section \<open>Symbol coverage\<close>

lemma join_empty: "join sep xs = [] \<Longrightarrow> xs = [] \<or> [] \<in> set xs"
  by (induction sep xs rule: join.induct) auto

lemma join_append:
  "xs \<noteq> [] \<Longrightarrow> ys \<noteq> [] \<Longrightarrow> join sep (xs @ ys) = join sep xs @ sep @ join sep ys"
proof (induction sep xs rule: join.induct)
  case (1 sep)
  then show ?case by simp
next
  case (2 sep x)
  then show ?case by (cases ys) simp_all
next
  case (3 sep x y ys')
  then show ?case by simp
qed

lemma init_all_names_eq:
  assumes "comps_inv comps" "[] \<notin> set (all_names comps)"
  shows "init_all_names comps = all_names comps"
proof -
  have "(if join '', '' (names c) \<noteq> [] then names c else []) = names c" if "c \<in> set comps" for c
  proof -
    have "names c \<noteq> []" using assms(1) that by (rule comps_inv_nonempty)
    moreover have "[] \<notin> set (names c)" using assms(2) that by (auto simp: all_names_def)
    ultimately show ?thesis using join_empty[of "'', ''" "names c"] by auto
  qed
  then have "map (\<lambda>c. if join '', '' (names c) \<noteq> [] then names c else []) comps = map names comps"
    by (intro map_cong[OF refl])
  then show ?thesis unfolding init_all_names_def all_names_def by (rule arg_cong)
qed

text \<open>The text of a module ends with the line of its export list.\<close>

lemma render_module_all:
  "\<exists>pre. render_module c imps ntm = pre @ [CHR 0x0A] @ all_line (names c) @ [CHR 0x0A]"
proof -
  obtain front where l: "render_module_lines c imps ntm = (HEADER # front) @ [all_line (names c), '''']"
    unfolding render_module_lines_def by simp
  have "render_module c imps ntm
      = join [CHR 0x0A] (HEADER # front) @ [CHR 0x0A] @ all_line (names c) @ [CHR 0x0A]"
    unfolding render_module_def l by (subst join_append) simp_all
  then show ?thesis by blast
qed

lemma render_init_all:
  "\<exists>pre. render_init comps doc = pre @ [CHR 0x0A] @ all_line (init_exports comps) @ [CHR 0x0A]"
proof -
  obtain front where l: "render_init_lines comps doc
      = (HEADER # front) @ [all_line (init_exports comps), '''']"
    unfolding render_init_lines_def by simp
  have "render_init comps doc
      = join [CHR 0x0A] (HEADER # front) @ [CHR 0x0A] @ all_line (init_exports comps) @ [CHR 0x0A]"
    unfolding render_init_def l by (subst join_append) simp_all
  then show ?thesis by blast
qed

text \<open>What \<open>plan_and_write_single\<close> writes is the rendering of the final components.\<close>

lemma plan_and_write_single_part:
  assumes "plan_and_write_single rt cfg tree = Inr (Some (mods, init_text))"
  obtains comps ntm imps doc where
    "plan rt cfg tree = Inr (Some (comps, ntm, imps, doc))"
    "planned_components rt cfg tree = Inr comps"
    "mods = map (\<lambda>c. (module_name c, render_module c imps ntm)) comps"
    "init_text = render_init comps doc"
proof -
  from assms obtain comps ntm imps doc where
    p: "plan rt cfg tree = Inr (Some (comps, ntm, imps, doc))"
    and m: "mods = map (\<lambda>c. (module_name c, render_module c imps ntm)) comps"
    and i: "init_text = render_init comps doc"
    unfolding plan_and_write_single_def by (auto split: sum.splits option.splits)
  have "planned_components rt cfg tree = Inr comps" by (simp add: planned_components_def p)
  then show ?thesis using that p m i by blast
qed

lemma plan_and_write_single_returns:
  assumes "length (remdups (symbols tree)) \<le> frames rt"
  shows "\<exists>r. plan_and_write_single rt cfg tree = Inr r"
proof -
  from plan_returns[OF assms, of cfg] obtain r where "plan rt cfg tree = Inr r" by blast
  then show ?thesis unfolding plan_and_write_single_def by (cases r) auto
qed

text \<open>The export lists that a run writes: the last line of every module and of the
  aggregator.\<close>

lemma written_exports:
  assumes "plan_and_write_single rt cfg tree = Inr (Some (mods, init_text))"
  obtains comps where "planned_components rt cfg tree = Inr comps"
    "map fst mods = map module_name comps"
    "list_all2 (\<lambda>m c. \<exists>pre. snd m = pre @ [CHR 0x0A] @ all_line (names c) @ [CHR 0x0A])
       mods comps"
    "\<exists>pre. init_text = pre @ [CHR 0x0A] @ all_line (init_exports comps) @ [CHR 0x0A]"
  using assms
proof (rule plan_and_write_single_part)
  fix comps ntm imps doc
  assume pc: "planned_components rt cfg tree = Inr comps"
    and m: "mods = map (\<lambda>c. (module_name c, render_module c imps ntm)) comps"
    and i: "init_text = render_init comps doc"
  have 1: "map fst mods = map module_name comps" unfolding m by (simp add: comp_def)
  have 2: "list_all2 (\<lambda>m c. \<exists>pre. snd m = pre @ [CHR 0x0A] @ all_line (names c) @ [CHR 0x0A])
      mods comps"
    unfolding m list_all2_map1
  proof (rule list_all2_refl)
    fix c
    show "\<exists>pre. snd (module_name c, render_module c imps ntm)
        = pre @ [CHR 0x0A] @ all_line (names c) @ [CHR 0x0A]"
      using render_module_all[of c imps ntm] by simp
  qed
  have 3: "\<exists>pre. init_text = pre @ [CHR 0x0A] @ all_line (init_exports comps) @ [CHR 0x0A]"
    unfolding i by (rule render_init_all)
  show ?thesis using that[OF pc 1 2 3] .
qed


text \<open>
  Claim C5. Of every run of \<open>plan_and_write_single\<close> that returns module texts \<open>mods\<close> and
  the text \<open>init_text\<close> of the package aggregator, on a file whose symbols are not empty
  strings: the modules are the renderings of final components \<open>comps\<close>; the text of each
  module ends with the line \<open>__all__ = [...]\<close> of the names of its component; the
  concatenation of these export lists has no duplicates and its elements are exactly the
  top-level symbols extracted from the file; and the text of the aggregator ends with the
  line \<open>__all__ = [...]\<close> of the deduplicated, sorted union of those names. A run returns
  whenever the recursion limit leaves one frame for each distinct symbol.
\<close>

theorem symbol_coverage:
  assumes "[] \<notin> set (symbols tree)"
  shows "(\<forall>mods init_text.
            plan_and_write_single rt cfg tree = Inr (Some (mods, init_text)) \<longrightarrow>
            (\<exists>comps. planned_components rt cfg tree = Inr comps
               \<and> map fst mods = map module_name comps
               \<and> list_all2 (\<lambda>m c. \<exists>pre. snd m = pre @ [CHR 0x0A] @ all_line (names c) @ [CHR 0x0A])
                    mods comps
               \<and> distinct (all_names comps)
               \<and> set (all_names comps) = set (symbols tree)
               \<and> (\<exists>pre. init_text
                     = pre @ [CHR 0x0A] @ all_line (sort (remdups (all_names comps))) @ [CHR 0x0A])))
     \<and> (length (remdups (symbols tree)) \<le> frames rt
          \<longrightarrow> (\<exists>r. plan_and_write_single rt cfg tree = Inr r))"
proof (intro conjI allI impI)
  fix mods init_text
  assume "plan_and_write_single rt cfg tree = Inr (Some (mods, init_text))"
  then show "\<exists>comps. planned_components rt cfg tree = Inr comps
     \<and> map fst mods = map module_name comps
     \<and> list_all2 (\<lambda>m c. \<exists>pre. snd m = pre @ [CHR 0x0A] @ all_line (names c) @ [CHR 0x0A])
          mods comps
     \<and> distinct (all_names comps)
     \<and> set (all_names comps) = set (symbols tree)
     \<and> (\<exists>pre. init_text
           = pre @ [CHR 0x0A] @ all_line (sort (remdups (all_names comps))) @ [CHR 0x0A])"
  proof (rule written_exports)
    fix comps
    assume pc: "planned_components rt cfg tree = Inr comps"
      and 1: "map fst mods = map module_name comps"
      and 2: "list_all2 (\<lambda>m c. \<exists>pre. snd m = pre @ [CHR 0x0A] @ all_line (names c) @ [CHR 0x0A])
        mods comps"
      and 3: "\<exists>pre. init_text = pre @ [CHR 0x0A] @ all_line (init_exports comps) @ [CHR 0x0A]"
    have b: "built (fst (extract_top_level_items tree)) comps"
      using pc by (rule planned_components_part(1))
    have inv: "comps_inv comps" and nms: "set (all_names comps) = set (symbols tree)"
      using b unfolding built_def symbols_def by blast+
    have d: "distinct (all_names comps)" using inv by (rule comps_inv_all_distinct)
    have "[] \<notin> set (all_names comps)" using nms assms by simp
    then have "init_all_names comps = all_names comps" using inv by (intro init_all_names_eq)
    then have e: "init_exports comps = sort (remdups (all_names comps))"
      by (simp add: init_exports_def)
    show ?thesis using pc 1 2 d nms 3 unfolding e by blast
  qed
next
  assume "length (remdups (symbols tree)) \<le> frames rt"
  then show "\<exists>r. plan_and_write_single rt cfg tree = Inr r"
    by (rule plan_and_write_single_returns)
qed

theorem symbol_coverage_witness:
  "[] \<notin> set (symbols lone_constant_file)
   \<and> length (remdups (symbols lone_constant_file)) \<le> frames example_runtime
   \<and> (\<exists>mods init_text comps.
         plan_and_write_single example_runtime default_config lone_constant_file
           = Inr (Some (mods, init_text))
         \<and> planned_components example_runtime default_config lone_constant_file = Inr comps
         \<and> map fst mods = map module_name comps
         \<and> list_all2 (\<lambda>m c. \<exists>pre. snd m = pre @ [CHR 0x0A] @ all_line (names c) @ [CHR 0x0A])
              mods comps
         \<and> distinct (all_names comps)
         \<and> set (all_names comps) = set (symbols lone_constant_file)
         \<and> (\<exists>pre. init_text
               = pre @ [CHR 0x0A] @ all_line (sort (remdups (all_names comps))) @ [CHR 0x0A]))"
proof -
  have s: "symbols lone_constant_file = [''X'', ''f'', ''g'']" by code_simp
  have 1: "[] \<notin> set (symbols lone_constant_file)" unfolding s by simp
  have 2: "length (remdups (symbols lone_constant_file)) \<le> frames example_runtime"
    unfolding s by (simp add: example_runtime_def)
  have "case plan_and_write_single example_runtime default_config lone_constant_file of
          Inl e \<Rightarrow> False | Inr None \<Rightarrow> False | Inr (Some m) \<Rightarrow> True"
    by code_simp
  then obtain mods init_text where
    3: "plan_and_write_single example_runtime default_config lone_constant_file
          = Inr (Some (mods, init_text))"
    by (auto split: sum.splits option.splits)
  show ?thesis
    using 1 2 3 symbol_coverage[OF 1, of example_runtime default_config] by blast
qed

section \<open>Source preservation\<close>

text \<open>
  Claim C4, as stated, fails for a compound assignment: the extractor makes one item per
  target, both with the span of the whole statement, and the renderer emits the span of
  every item. For the file \<^verbatim>\<open>a = b = 1\<close> the span is emitted twice.
\<close>

theorem compound_assignment_rendered_twice:
  "rendered_blocks example_runtime default_config compound_assignment_file
     = Inr [''a = b = 1'', ''a = b = 1'']"
  by code_simp

lemma source_blocks_all_items:
  "concat (map source_blocks comps) = map (\<lambda>it. py_rstrip (source it)) (all_items comps)"
  by (induction comps) (simp_all add: source_blocks_def all_items_def)

text \<open>
  Claim C4, amended. The blocks emitted over all rendered modules are, as a multiset, the
  right-stripped source spans of the items that \<open>item_by_name\<close> holds (for every symbol the
  last item of that name), one block per item; when the symbols are pairwise distinct these
  are all extracted items. The span of a compound assignment with several plain-name
  targets is thus emitted once per target.
\<close>

theorem each_kept_item_rendered_once:
  assumes "length (remdups (symbols tree)) \<le> frames rt"
  shows "\<exists>blocks. rendered_blocks rt cfg tree = Inr blocks
     \<and> mset blocks = mset (map (\<lambda>it. py_rstrip (source it))
                            (kept_items (fst (extract_top_level_items tree))))
     \<and> (distinct (symbols tree) \<longrightarrow>
          mset blocks = mset (map (\<lambda>it. py_rstrip (source it))
                                (fst (extract_top_level_items tree))))"
proof -
  let ?its = "fst (extract_top_level_items tree)"
  from planned_components_returns[OF assms, of cfg] obtain comps where
    p: "planned_components rt cfg tree = Inr comps" by blast
  have b: "built ?its comps" using p by (rule planned_components_part(1))
  have k: "mset (all_items comps) = mset (kept_items ?its)" using b by (rule built_kept_items)
  have r: "rendered_blocks rt cfg tree = Inr (concat (map source_blocks comps))"
    by (simp add: rendered_blocks_def p)
  have m: "mset (concat (map source_blocks comps))
      = mset (map (\<lambda>it. py_rstrip (source it)) (kept_items ?its))"
    unfolding source_blocks_all_items using k by (metis mset_map)
  have "distinct (symbols tree) \<Longrightarrow> kept_items ?its = ?its"
    unfolding symbols_def by (rule kept_items_distinct)
  then show ?thesis using r m by auto
qed

theorem each_kept_item_rendered_once_witness:
  "length (remdups (symbols compound_assignment_file)) \<le> frames example_runtime
   \<and> distinct (symbols compound_assignment_file)
   \<and> (\<exists>blocks. rendered_blocks example_runtime default_config compound_assignment_file = Inr blocks
     \<and> mset blocks = mset (map (\<lambda>it. py_rstrip (source it))
                            (fst (extract_top_level_items compound_assignment_file))))"
proof -
  have s: "symbols compound_assignment_file = [''a'', ''b'']" by code_simp
  have 1: "length (remdups (symbols compound_assignment_file)) \<le> frames example_runtime"
    unfolding s by (simp add: example_runtime_def)
  have 2: "distinct (symbols compound_assignment_file)" unfolding s by simp
  show ?thesis
    using 1 2 each_kept_item_rendered_once[OF 1, of default_config] by blast
qed

section \<open>Assignments without a plain-name target\<close>








section \<open>Import cycles between rendered modules\<close>

text \<open>
  Claim C1 fails on the code. For the file \<^verbatim>\<open>Y = 1\<close>, \<^verbatim>\<open>def f(): return Y\<close>, \<^verbatim>\<open>X = f()\<close> and the
  default configuration, step 1 of \<open>repack_components\<close> merges the assignment-only
  components of \<open>Y\<close> and \<open>X\<close> into \<open>constants\<close>, although \<open>f\<close> lies between them in the
  dependency order: the module \<open>f\<close> imports from \<open>constants\<close> and the module \<open>constants\<close>
  imports from \<open>f\<close>.
\<close>

theorem grouped_constants_import_cycle:
  "plan_and_write_single example_runtime default_config constants_cycle_file
     = Inr (Some
        ([(''f'', join [CHR 0x0A]
             [HEADER, ''from .constants import Y'', '''', ''def f(): return Y'', '''',
              all_line [''f''], '''']),
          (''constants'', join [CHR 0x0A]
             [HEADER, ''from .f import f'', '''', ''Y = 1'', '''', ''X = f()'', '''',
              all_line [''Y'', ''X''], ''''])],
         join [CHR 0x0A]
           [HEADER, ''from .f import f'', ''from .constants import Y, X'', '''',
            all_line [''X'', ''Y'', ''f''], '''']))"
  by code_simp

section \<open>Imports after the collision guard\<close>

text \<open>
  Claim C3 fails on the code. For the file \<^verbatim>\<open>def foo(): return 1\<close>, \<^verbatim>\<open>class Foo: x = foo()\<close>,
  \<^verbatim>\<open>def user(): return Foo()\<close> with small-component packing off, the components of \<open>foo\<close>
  and \<open>Foo\<close> are both named \<open>foo\<close>; the collision guard renames the second to \<open>foo_2\<close>,
  after \<open>name_to_module\<close> was built, and the module \<open>user\<close> is rendered with the line
  \<^verbatim>\<open>from .foo import Foo\<close>, while \<open>Foo\<close> is defined in \<open>foo_2\<close> and not in \<open>foo\<close>.
\<close>

theorem collision_guard_stale_import:
  "plan_and_write_single example_runtime (default_config\<lparr>pack_small_lines := 0\<rparr>)
       name_collision_file
     = Inr (Some
        ([(''foo'', join [CHR 0x0A]
             [HEADER, ''def foo(): return 1'', '''', all_line [''foo''], '''']),
          (''foo_2'', join [CHR 0x0A]
             [HEADER, ''from .foo import foo'', '''', ''class Foo: x = foo()'', '''',
              all_line [''Foo''], '''']),
          (''user'', join [CHR 0x0A]
             [HEADER, ''from .foo import Foo'', '''', ''def user(): return Foo()'', '''',
              all_line [''user''], ''''])],
         join [CHR 0x0A]
           [HEADER, ''from .foo import foo'', ''from .foo_2 import Foo'',
            ''from .user import user'', '''', all_line [''Foo'', ''foo'', ''user''], '''']))"
  by code_simp

section \<open>Small-component packing\<close>

lemma merge_smallest_once_keeps:
  assumes "merge_smallest_once comps = Some comps'" "c \<in> set comps" "module_name c \<in> set pinned"
  shows "c \<in> set comps'"
proof (rule merge_smallest_once_Some[OF assms(1)])
  fix a b
  assume "module_name a \<notin> set pinned" "module_name b \<notin> set pinned"
    and c': "comps' = filter (\<lambda>c. c \<noteq> a \<and> c \<noteq> b) comps @ [merge_components a b None]"
  then have "c \<noteq> a" "c \<noteq> b" using assms(3) by auto
  then show ?thesis unfolding c' using assms(2) by simp
qed

lemma merge_down_to_keeps:
  "c \<in> set comps \<Longrightarrow> module_name c \<in> set pinned \<Longrightarrow> c \<in> set (merge_down_to n comps)"
proof (induction n comps rule: merge_down_to.induct)
  case (1 n comps)
  show ?case
  proof (cases "int (length comps) > n")
    case True
    show ?thesis
    proof (cases "merge_smallest_once comps")
      case None
      then show ?thesis using True "1.prems" by (subst merge_down_to.simps) simp
    next
      case (Some comps')
      have "c \<in> set comps'" using Some "1.prems" by (rule merge_smallest_once_keeps)
      then have "c \<in> set (merge_down_to n comps')" using "1.IH"[OF True Some] "1.prems"(2) by simp
      then show ?thesis using True Some by (subst merge_down_to.simps) simp
    qed
  next
    case False
    then show ?thesis using "1.prems" by (subst merge_down_to.simps) simp
  qed
qed

lemma min_lines_loop_keeps:
  "c \<in> set comps \<Longrightarrow> module_name c \<in> set pinned \<Longrightarrow> c \<in> set (min_lines_loop n comps)"
proof (induction n comps rule: min_lines_loop.induct)
  case (1 n comps)
  let ?sm = "sort_key comp_lines
      (filter (\<lambda>c. int (comp_lines c) < n \<and> module_name c \<notin> set pinned) comps)"
  show ?case
  proof (cases ?sm)
    case Nil
    then show ?thesis using "1.prems" by (subst min_lines_loop.simps) simp
  next
    case (Cons s r1)
    let ?ot = "sort_key comp_lines (filter (\<lambda>c. c \<noteq> s \<and> module_name c \<notin> set pinned) comps)"
    show ?thesis
    proof (cases ?ot)
      case Nil
      then show ?thesis using Cons "1.prems" by (subst min_lines_loop.simps) simp
    next
      case ot: (Cons other r2)
      let ?next = "filter (\<lambda>c. c \<noteq> s \<and> c \<noteq> other) comps @ [merge_components s other None]"
      have "s \<in> set ?sm" unfolding Cons by simp
      then have s: "module_name s \<notin> set pinned" by simp
      have "other \<in> set ?ot" unfolding ot by simp
      then have o: "module_name other \<notin> set pinned" by simp
      have "c \<noteq> s" "c \<noteq> other" using s o "1.prems"(2) by auto
      then have "c \<in> set ?next" using "1.prems"(1) by simp
      then have "c \<in> set (min_lines_loop n ?next)" using "1.IH"[OF Cons ot] "1.prems"(2) by simp
      then show ?thesis using Cons ot by (subst min_lines_loop.simps) simp
    qed
  qed
qed

text \<open>
  Claim C8, as stated, fails: the components left out of the packing are not those named
  \<open>constants\<close> or \<open>core\<close> but those that hold assignments only. For the file \<^verbatim>\<open>X = 1\<close>,
  \<^verbatim>\<open>def f(): return 1\<close>, \<^verbatim>\<open>def g(): return 2\<close> and the default configuration (threshold 40)
  the component of \<open>X\<close> is named \<open>x\<close> and has one line, and it is not merged into \<open>core\<close>.
\<close>

theorem lone_constant_not_packed:
  "pack_small_lines default_config = 40
   \<and> layout example_runtime default_config lone_constant_file
       = Inr [(''x'', [''X''], 1), (''core'', [''f'', ''g''], 2)]
   \<and> plan_and_write_single example_runtime default_config lone_constant_file
       = Inr (Some
          ([(''x'', join [CHR 0x0A] [HEADER, ''X = 1'', '''', all_line [''X''], '''']),
            (''core'', join [CHR 0x0A]
               [HEADER, ''def f(): return 1'', '''', ''def g(): return 2'', '''',
                all_line [''f'', ''g''], ''''])],
           join [CHR 0x0A]
             [HEADER, ''from .x import X'', ''from .core import f, g'', '''',
              all_line [''X'', ''f'', ''g''], '''']))"
proof (intro conjI)
  show "pack_small_lines default_config = 40" by (simp add: default_config_def)
  show "layout example_runtime default_config lone_constant_file
       = Inr [(''x'', [''X''], 1), (''core'', [''f'', ''g''], 2)]"
    by code_simp
  show "plan_and_write_single example_runtime default_config lone_constant_file
       = Inr (Some
          ([(''x'', join [CHR 0x0A] [HEADER, ''X = 1'', '''', all_line [''X''], '''']),
            (''core'', join [CHR 0x0A]
               [HEADER, ''def f(): return 1'', '''', ''def g(): return 2'', '''',
                all_line [''f'', ''g''], ''''])],
           join [CHR 0x0A]
             [HEADER, ''from .x import X'', ''from .core import f, g'', '''',
              all_line [''X'', ''f'', ''g''], '''']))"
    by code_simp
qed

text \<open>
  Claim C8, amended. With a threshold \<open>pack_small_lines > 0\<close>, let \<open>small\<close> be the components
  (after step 1) that have fewer source lines than the threshold and are not
  assignment-only. When \<open>small\<close> has more than one element, \<open>repack_components\<close> merges them
  into one component named \<open>core\<close>, which holds the names and items of all of them in
  order, and which is still a component of the result: the later size-driven merges leave
  it alone. When \<open>small\<close> has at most one element, step 2 merges nothing.
\<close>

theorem small_components_packed_into_core:
  assumes "pack_small_lines cfg > 0"
  shows "(length (small_components cfg (after_grouping cfg comps)) > 1 \<longrightarrow>
            core_component (small_components cfg (after_grouping cfg comps))
              \<in> set (repack_comps cfg comps)
            \<and> module_name (core_component (small_components cfg (after_grouping cfg comps)))
                = ''core''
            \<and> names (core_component (small_components cfg (after_grouping cfg comps)))
                = concat (map names (small_components cfg (after_grouping cfg comps)))
            \<and> items (core_component (small_components cfg (after_grouping cfg comps)))
                = concat (map items (small_components cfg (after_grouping cfg comps))))
     \<and> (length (small_components cfg (after_grouping cfg comps)) \<le> 1 \<longrightarrow>
            pack_small_step (pack_small_lines cfg) (after_grouping cfg comps)
              = after_grouping cfg comps)"
proof (intro conjI impI)
  let ?c1 = "after_grouping cfg comps"
  let ?small = "small_components cfg ?c1"
  let ?core = "core_component ?small"
  have mn: "module_name ?core = ''core''" by (simp add: core_component_def)
  {
    assume len: "length ?small > 1"
    then have ne: "?small \<noteq> []" by auto
    show "module_name ?core = ''core''" by (rule mn)
    show "names ?core = concat (map names ?small)"
      unfolding core_component_def using ne by (rule merged_all_names)
    show "items ?core = concat (map items ?small)"
      unfolding core_component_def using ne by (rule merged_all_items)
    define c2 where "c2 = pack_small_step (pack_small_lines cfg) ?c1"
    define c3 where "c3 = (if max_modules cfg \<noteq> 0 then merge_down_to (max_modules cfg) c2 else c2)"
    define c4 where "c4 = (if min_module_lines cfg \<noteq> 0 \<and> min_module_lines cfg > 0
                      then min_lines_loop (min_module_lines cfg) c3 else c3)"
    define c5 where "c5 = (case target_modules cfg of None \<Rightarrow> c4
            | Some t \<Rightarrow> if t > 0 then merge_down_to t c4 else c4)"
    have r: "repack_comps cfg comps = c5"
      unfolding c5_def c4_def c3_def c2_def repack_comps_def after_grouping_def Let_def
      using assms by simp
    have pin: "module_name ?core \<in> set pinned" by (simp add: mn pinned_def)
    have "c2 = filter (\<lambda>c. c \<notin> set ?small) ?c1 @ [?core]"
      unfolding c2_def pack_small_step_def Let_def small_components_def[symmetric]
        core_component_def[symmetric]
      using len by simp
    then have 2: "?core \<in> set c2" by simp
    have 3: "?core \<in> set c3" using 2 pin by (simp add: c3_def merge_down_to_keeps)
    have 4: "?core \<in> set c4" using 3 pin by (simp add: c4_def min_lines_loop_keeps)
    have 5: "?core \<in> set c5"
      using 4 pin by (simp add: c5_def merge_down_to_keeps split: option.splits)
    show "?core \<in> set (repack_comps cfg comps)" unfolding r by (rule 5)
  }
  assume "length ?small \<le> 1"
  then show "pack_small_step (pack_small_lines cfg) ?c1 = ?c1"
    unfolding pack_small_step_def Let_def small_components_def[symmetric] by simp
qed

theorem small_components_packed_into_core_witness:
  "pack_small_lines default_config > 0
   \<and> length (small_components default_config (after_grouping default_config
        (seed_components_of example_runtime lone_constant_file))) > 1
   \<and> core_component (small_components default_config (after_grouping default_config
        (seed_components_of example_runtime lone_constant_file)))
       \<in> set (repack_comps default_config (seed_components_of example_runtime lone_constant_file))
   \<and> module_name (core_component (small_components default_config (after_grouping default_config
        (seed_components_of example_runtime lone_constant_file)))) = ''core''
   \<and> names (core_component (small_components default_config (after_grouping default_config
        (seed_components_of example_runtime lone_constant_file)))) = [''f'', ''g'']"
proof -
  let ?comps = "seed_components_of example_runtime lone_constant_file"
  have 1: "pack_small_lines default_config > 0" by (simp add: default_config_def)
  have 2: "length (small_components default_config (after_grouping default_config ?comps)) > 1"
    by code_simp
  have 3: "concat (map names (small_components default_config
      (after_grouping default_config ?comps))) = [''f'', ''g'']"
    by code_simp
  show ?thesis
    using 1 2 small_components_packed_into_core[OF 1, of ?comps] unfolding 3 by blast
qed

section \<open>The order of the rendered items\<close>

lemma from_seeds_self: "c \<in> set comps0 \<Longrightarrow> from_seeds comps0 c"
  unfolding from_seeds_def by (rule exI[of _ "[c]"]) simp

lemma from_seeds_items: "from_seeds comps0 c \<Longrightarrow> items c' = items c \<Longrightarrow> from_seeds comps0 c'"
  by (simp add: from_seeds_def)

lemma from_seeds_concat:
  "sel \<noteq> [] \<Longrightarrow> \<forall>c \<in> set sel. from_seeds comps0 c
   \<Longrightarrow> \<exists>cs. cs \<noteq> [] \<and> set cs \<subseteq> set comps0 \<and> concat (map items sel) = concat (map items cs)"
proof (induction sel)
  case Nil
  then show ?case by simp
next
  case (Cons c sel)
  from Cons.prems(2) obtain cs1 where 1: "cs1 \<noteq> []" "set cs1 \<subseteq> set comps0"
    "items c = concat (map items cs1)"
    unfolding from_seeds_def by auto
  show ?case
  proof (cases "sel = []")
    case True
    then show ?thesis using 1 by auto
  next
    case False
    with Cons obtain cs2 where 2: "set cs2 \<subseteq> set comps0"
      "concat (map items sel) = concat (map items cs2)" by auto
    show ?thesis
      by (rule exI[of _ "cs1 @ cs2"]) (use 1 2 in simp)
  qed
qed

lemma from_seeds_merged:
  assumes "sel \<noteq> []" "\<forall>c \<in> set sel. from_seeds comps0 c" "items m = concat (map items sel)"
  shows "from_seeds comps0 m"
  using from_seeds_concat[OF assms(1,2)] unfolding from_seeds_def assms(3) .

lemma merge_selected_from_seeds:
  assumes all: "\<forall>c \<in> set comps. from_seeds comps0 c" and len: "length (filter P comps) > 1"
  shows "\<forall>c \<in> set (filter (\<lambda>c. c \<notin> set (filter P comps)) comps
     @ [(foldl (\<lambda>m c. merge_components m c None) (hd (filter P comps)) (tl (filter P comps)))
          \<lparr>module_name := n\<rparr>]). from_seeds comps0 c"
proof -
  have ne: "filter P comps \<noteq> []" using len by auto
  have "from_seeds comps0 ((foldl (\<lambda>m c. merge_components m c None) (hd (filter P comps))
      (tl (filter P comps)))\<lparr>module_name := n\<rparr>)"
    using ne
  proof (rule from_seeds_merged)
    show "\<forall>c \<in> set (filter P comps). from_seeds comps0 c" using all by simp
    show "items ((foldl (\<lambda>m c. merge_components m c None) (hd (filter P comps))
      (tl (filter P comps)))\<lparr>module_name := n\<rparr>) = concat (map items (filter P comps))"
      using ne by (rule merged_all_items)
  qed
  then show ?thesis using all by simp
qed

lemma group_assignments_step_from_seeds:
  assumes "\<forall>c \<in> set comps. from_seeds comps0 c"
  shows "\<forall>c \<in> set (group_assignments_step comps). from_seeds comps0 c"
proof (cases "length (filter assign_only comps) > 1")
  case True
  then show ?thesis
    unfolding group_assignments_step_def Let_def
    using merge_selected_from_seeds[OF assms True] by (simp only: if_True)
next
  case False
  then show ?thesis
    unfolding group_assignments_step_def Let_def using assms by (simp only: if_False)
qed

lemma pack_small_step_from_seeds:
  assumes "\<forall>c \<in> set comps. from_seeds comps0 c"
  shows "\<forall>c \<in> set (pack_small_step threshold comps). from_seeds comps0 c"
proof (cases "length (filter (\<lambda>c. int (comp_lines c) < threshold \<and> \<not> assign_only c) comps) > 1")
  case True
  then show ?thesis
    unfolding pack_small_step_def Let_def
    using merge_selected_from_seeds[OF assms True] by (simp only: if_True)
next
  case False
  then show ?thesis
    unfolding pack_small_step_def Let_def using assms by (simp only: if_False)
qed

lemma merge_pair_from_seeds:
  assumes all: "\<forall>c \<in> set comps. from_seeds comps0 c" and a: "a \<in> set comps" and b: "b \<in> set comps"
  shows "\<forall>c \<in> set (filter (\<lambda>c. c \<noteq> a \<and> c \<noteq> b) comps @ [merge_components a b None]).
     from_seeds comps0 c"
proof -
  have "from_seeds comps0 (merge_components a b None)"
  proof (rule from_seeds_merged)
    show "[a, b] \<noteq> []" by simp
    show "\<forall>c \<in> set [a, b]. from_seeds comps0 c" using all a b by simp
    show "items (merge_components a b None) = concat (map items [a, b])" by simp
  qed
  then show ?thesis using all by simp
qed

lemma merge_down_to_from_seeds:
  "\<forall>c \<in> set comps. from_seeds comps0 c \<Longrightarrow> \<forall>c \<in> set (merge_down_to n comps). from_seeds comps0 c"
proof (induction n comps rule: merge_down_to.induct)
  case (1 n comps)
  show ?case
  proof (cases "int (length comps) > n")
    case True
    show ?thesis
    proof (cases "merge_smallest_once comps")
      case None
      then show ?thesis using True "1.prems" by (subst merge_down_to.simps) simp
    next
      case (Some comps')
      have "\<forall>c \<in> set comps'. from_seeds comps0 c"
      proof (rule merge_smallest_once_Some[OF Some])
        fix a b
        assume "a \<in> set comps" "b \<in> set comps"
          "comps' = filter (\<lambda>c. c \<noteq> a \<and> c \<noteq> b) comps @ [merge_components a b None]"
        then show ?thesis using merge_pair_from_seeds[OF "1.prems", of a b] by simp
      qed
      then have "\<forall>c \<in> set (merge_down_to n comps'). from_seeds comps0 c"
        by (rule "1.IH"[OF True Some])
      then show ?thesis using True Some by (subst merge_down_to.simps) simp
    qed
  next
    case False
    then show ?thesis using "1.prems" by (subst merge_down_to.simps) simp
  qed
qed

lemma min_lines_loop_from_seeds:
  "\<forall>c \<in> set comps. from_seeds comps0 c \<Longrightarrow> \<forall>c \<in> set (min_lines_loop n comps). from_seeds comps0 c"
proof (induction n comps rule: min_lines_loop.induct)
  case (1 n comps)
  let ?sm = "sort_key comp_lines
      (filter (\<lambda>c. int (comp_lines c) < n \<and> module_name c \<notin> set pinned) comps)"
  show ?case
  proof (cases ?sm)
    case Nil
    then show ?thesis using "1.prems" by (subst min_lines_loop.simps) simp
  next
    case (Cons s r1)
    let ?ot = "sort_key comp_lines (filter (\<lambda>c. c \<noteq> s \<and> module_name c \<notin> set pinned) comps)"
    show ?thesis
    proof (cases ?ot)
      case Nil
      then show ?thesis using Cons "1.prems" by (subst min_lines_loop.simps) simp
    next
      case ot: (Cons other r2)
      let ?next = "filter (\<lambda>c. c \<noteq> s \<and> c \<noteq> other) comps @ [merge_components s other None]"
      have "s \<in> set ?sm" unfolding Cons by simp
      then have s_in: "s \<in> set comps" by simp
      have "other \<in> set ?ot" unfolding ot by simp
      then have o_in: "other \<in> set comps" by simp
      have "\<forall>c \<in> set ?next. from_seeds comps0 c"
        using "1.prems" s_in o_in by (rule merge_pair_from_seeds)
      then have "\<forall>c \<in> set (min_lines_loop n ?next). from_seeds comps0 c"
        by (rule "1.IH"[OF Cons ot])
      then show ?thesis using Cons ot by (subst min_lines_loop.simps) simp
    qed
  qed
qed

lemma repack_comps_from_seeds:
  assumes "\<forall>c \<in> set comps. from_seeds comps0 c"
  shows "\<forall>c \<in> set (repack_comps cfg comps). from_seeds comps0 c"
proof -
  define c1 where "c1 = (if group_assignments cfg then group_assignments_step comps else comps)"
  define c2 where "c2 = (if pack_small_lines cfg \<noteq> 0 \<and> pack_small_lines cfg > 0
                    then pack_small_step (pack_small_lines cfg) c1 else c1)"
  define c3 where "c3 = (if max_modules cfg \<noteq> 0 then merge_down_to (max_modules cfg) c2 else c2)"
  define c4 where "c4 = (if min_module_lines cfg \<noteq> 0 \<and> min_module_lines cfg > 0
                    then min_lines_loop (min_module_lines cfg) c3 else c3)"
  define c5 where "c5 = (case target_modules cfg of None \<Rightarrow> c4
          | Some t \<Rightarrow> if t > 0 then merge_down_to t c4 else c4)"
  have r: "repack_comps cfg comps = c5"
    unfolding c5_def c4_def c3_def c2_def c1_def repack_comps_def Let_def by (rule refl)
  have 1: "\<forall>c \<in> set c1. from_seeds comps0 c"
    using assms group_assignments_step_from_seeds[OF assms] by (simp add: c1_def)
  have 2: "\<forall>c \<in> set c2. from_seeds comps0 c"
    using 1 pack_small_step_from_seeds[OF 1] by (simp add: c2_def)
  have 3: "\<forall>c \<in> set c3. from_seeds comps0 c"
    using 2 merge_down_to_from_seeds[OF 2] by (simp add: c3_def)
  have 4: "\<forall>c \<in> set c4. from_seeds comps0 c"
    using 3 min_lines_loop_from_seeds[OF 3] by (simp add: c4_def)
  have 5: "\<forall>c \<in> set c5. from_seeds comps0 c"
    using 4 merge_down_to_from_seeds[OF 4] by (simp add: c5_def split: option.splits)
  show ?thesis unfolding r by (rule 5)
qed

lemma unique_module_names_from_seeds:
  assumes "\<forall>c \<in> set comps. from_seeds comps0 c"
  shows "\<forall>c \<in> set (unique_module_names comps used). from_seeds comps0 c"
proof
  fix c' assume "c' \<in> set (unique_module_names comps used)"
  then have "items c' \<in> items ` set (unique_module_names comps used)" by (rule imageI)
  then have "items c' \<in> set (map items (unique_module_names comps used))"
    by (simp only: set_map)
  then have "items c' \<in> set (map items comps)" by (simp only: unique_module_names_items)
  then obtain c where "c \<in> set comps" "items c' = items c" by auto
  then show "from_seeds comps0 c'" using assms from_seeds_items by blast
qed

text \<open>The text of a module: the source blocks of the items in the order of the item list,
  each followed by an empty line, then the export list.\<close>

lemma join_blocks:
  "xs \<noteq> [] \<Longrightarrow> ys \<noteq> [] \<Longrightarrow>
   join [CHR 0x0A] (xs @ concat (map (\<lambda>src. [src, '''']) bs) @ ys)
     = join [CHR 0x0A] xs @ [CHR 0x0A] @ concat (map (\<lambda>src. src @ [CHR 0x0A, CHR 0x0A]) bs)
       @ join [CHR 0x0A] ys"
proof (induction bs arbitrary: xs)
  case Nil
  then show ?case by (simp add: join_append)
next
  case (Cons b bs)
  have "join [CHR 0x0A] ((xs @ [b, '''']) @ concat (map (\<lambda>src. [src, '''']) bs) @ ys)
      = join [CHR 0x0A] (xs @ [b, '''']) @ [CHR 0x0A]
        @ concat (map (\<lambda>src. src @ [CHR 0x0A, CHR 0x0A]) bs) @ join [CHR 0x0A] ys"
    using Cons.prems by (intro Cons.IH) simp_all
  moreover have "join [CHR 0x0A] (xs @ [b, '''']) = join [CHR 0x0A] xs @ [CHR 0x0A] @ b @ [CHR 0x0A]"
    using Cons.prems(1) by (subst join_append) simp_all
  ultimately show ?case by simp
qed

lemma render_module_blocks:
  "\<exists>pre. render_module c imps ntm
     = pre @ concat (map (\<lambda>it. py_rstrip (source it) @ [CHR 0x0A, CHR 0x0A]) (items c))
       @ all_line (names c) @ [CHR 0x0A]"
proof -
  obtain front where l: "render_module_lines c imps ntm
      = (HEADER # front) @ concat (map (\<lambda>src. [src, '''']) (source_blocks c))
        @ [all_line (names c), '''']"
    unfolding render_module_lines_def by simp
  have "render_module c imps ntm
      = (join [CHR 0x0A] (HEADER # front) @ [CHR 0x0A])
        @ concat (map (\<lambda>src. src @ [CHR 0x0A, CHR 0x0A]) (source_blocks c))
        @ all_line (names c) @ [CHR 0x0A]"
    unfolding render_module_def l by (subst join_blocks) simp_all
  moreover have "concat (map (\<lambda>src. src @ [CHR 0x0A, CHR 0x0A]) (source_blocks c))
      = concat (map (\<lambda>it. py_rstrip (source it) @ [CHR 0x0A, CHR 0x0A]) (items c))"
    by (simp add: source_blocks_def comp_def)
  ultimately show ?thesis by metis
qed

text \<open>
  Claim C7, as stated, fails: \<open>build_components\<close> sorts the items of every strongly
  connected component by lower-cased name, and the renderer follows the item list. In
  the file \<^verbatim>\<open>def b(): return a()\<close>, \<^verbatim>\<open>def a(): return b()\<close> the item \<open>b\<close> comes first; the one
  module written holds the source of \<open>a\<close> before the source of \<open>b\<close>.
\<close>

theorem mutual_pair_rendered_by_name:
  "symbols reversed_pair_file = [''b'', ''a'']
   \<and> plan_and_write_single example_runtime default_config reversed_pair_file
       = Inr (Some
          ([(''a_b'', join [CHR 0x0A]
               [HEADER, ''def a(): return b()'', '''', ''def b(): return a()'', '''',
                all_line [''a'', ''b''], ''''])],
           join [CHR 0x0A]
             [HEADER, ''from .a_b import a, b'', '''', all_line [''a'', ''b''], '''']))"
proof (intro conjI)
  show "symbols reversed_pair_file = [''b'', ''a'']" by code_simp
  show "plan_and_write_single example_runtime default_config reversed_pair_file
       = Inr (Some
          ([(''a_b'', join [CHR 0x0A]
               [HEADER, ''def a(): return b()'', '''', ''def b(): return a()'', '''',
                all_line [''a'', ''b''], ''''])],
           join [CHR 0x0A]
             [HEADER, ''from .a_b import a, b'', '''', all_line [''a'', ''b''], '''']))"
    by code_simp
qed

text \<open>
  Claim C7, amended. In every run of \<open>plan_and_write_single\<close> that returns, the text of the
  module of every final component ends with the right-stripped source texts of the items
  of the component in the order of its item list, each followed by an empty line, then
  the line of the export list, which names the items in the same order. The item list of
  a final component is the concatenation of the item lists of components that
  \<open>build_components\<close> returned, and each of these is sorted by lower-cased name: the order
  is not the order of the original file.
\<close>

theorem blocks_in_component_order:
  "\<forall>mods init_text.
     plan_and_write_single rt cfg tree = Inr (Some (mods, init_text)) \<longrightarrow>
     (\<exists>comps comps0.
        planned_components rt cfg tree = Inr comps
        \<and> build_components rt (fst (extract_top_level_items tree)) = Inr comps0
        \<and> list_all2 (\<lambda>m c. \<exists>pre. snd m
               = pre @ concat (map (\<lambda>it. py_rstrip (source it) @ [CHR 0x0A, CHR 0x0A]) (items c))
                 @ all_line (map name (items c)) @ [CHR 0x0A])
             mods comps
        \<and> list_all (from_seeds comps0) comps
        \<and> list_all (\<lambda>c0. sorted (map (\<lambda>it. str_lower rt (name it)) (items c0))) comps0)"
proof (intro allI impI)
  fix mods init_text
  assume "plan_and_write_single rt cfg tree = Inr (Some (mods, init_text))"
  then show "\<exists>comps comps0.
        planned_components rt cfg tree = Inr comps
        \<and> build_components rt (fst (extract_top_level_items tree)) = Inr comps0
        \<and> list_all2 (\<lambda>m c. \<exists>pre. snd m
               = pre @ concat (map (\<lambda>it. py_rstrip (source it) @ [CHR 0x0A, CHR 0x0A]) (items c))
                 @ all_line (map name (items c)) @ [CHR 0x0A])
             mods comps
        \<and> list_all (from_seeds comps0) comps
        \<and> list_all (\<lambda>c0. sorted (map (\<lambda>it. str_lower rt (name it)) (items c0))) comps0"
  proof (rule plan_and_write_single_part)
    fix comps ntm imps doc
    assume p: "plan rt cfg tree = Inr (Some (comps, ntm, imps, doc))"
      and pc: "planned_components rt cfg tree = Inr comps"
      and m: "mods = map (\<lambda>c. (module_name c, render_module c imps ntm)) comps"
    from p show ?thesis
    proof (rule plan_part)
      fix comps0
      assume b: "build_components rt (fst (extract_top_level_items tree)) = Inr comps0"
        and c: "comps = unique_module_names (repack_comps cfg comps0) []"
        and srt: "\<And>c. c \<in> set comps0 \<Longrightarrow> sorted (map (\<lambda>it. str_lower rt (name it)) (items c))"
      have "built (fst (extract_top_level_items tree)) comps"
        using pc by (rule planned_components_part(1))
      then have inv: "comps_inv comps" unfolding built_def by blast
      have "\<forall>c \<in> set comps0. from_seeds comps0 c" by (simp add: from_seeds_self)
      then have "\<forall>c \<in> set (repack_comps cfg comps0). from_seeds comps0 c"
        by (rule repack_comps_from_seeds)
      then have "\<forall>c \<in> set comps. from_seeds comps0 c"
        unfolding c by (rule unique_module_names_from_seeds)
      then have 1: "list_all (from_seeds comps0) comps" by (simp add: list_all_iff)
      have 2: "list_all (\<lambda>c0. sorted (map (\<lambda>it. str_lower rt (name it)) (items c0))) comps0"
        using srt by (simp add: list_all_iff)
      have 3: "list_all2 (\<lambda>m c. \<exists>pre. snd m
               = pre @ concat (map (\<lambda>it. py_rstrip (source it) @ [CHR 0x0A, CHR 0x0A]) (items c))
                 @ all_line (map name (items c)) @ [CHR 0x0A])
             mods comps"
        unfolding m list_all2_map1
      proof (rule list_all2_all_nthI)
        show "length comps = length comps" by (rule refl)
        fix n assume "n < length comps"
        then have "comps ! n \<in> set comps" by simp
        then have nm: "names (comps ! n) = map name (items (comps ! n))"
          using inv by (rule comps_inv_names[rotated])
        show "\<exists>pre. snd (module_name (comps ! n), render_module (comps ! n) imps ntm)
            = pre @ concat (map (\<lambda>it. py_rstrip (source it) @ [CHR 0x0A, CHR 0x0A])
                  (items (comps ! n)))
              @ all_line (map name (items (comps ! n))) @ [CHR 0x0A]"
          using render_module_blocks[of "comps ! n" imps ntm] unfolding nm by simp
      qed
      show ?thesis using pc b 1 2 3 by blast
    qed
  qed
qed

theorem blocks_in_component_order_witness:
  "\<exists>mods init_text comps comps0.
     plan_and_write_single example_runtime default_config caller_first_file
       = Inr (Some (mods, init_text))
     \<and> planned_components example_runtime default_config caller_first_file = Inr comps
     \<and> build_components example_runtime (fst (extract_top_level_items caller_first_file))
         = Inr comps0
     \<and> list_all2 (\<lambda>m c. \<exists>pre. snd m
            = pre @ concat (map (\<lambda>it. py_rstrip (source it) @ [CHR 0x0A, CHR 0x0A]) (items c))
              @ all_line (map name (items c)) @ [CHR 0x0A])
          mods comps
     \<and> list_all (from_seeds comps0) comps
     \<and> list_all (\<lambda>c0. sorted (map (\<lambda>it. str_lower example_runtime (name it)) (items c0))) comps0"
proof -
  have "case plan_and_write_single example_runtime default_config caller_first_file of
          Inl e \<Rightarrow> False | Inr None \<Rightarrow> False | Inr (Some m) \<Rightarrow> True"
    by code_simp
  then obtain mods init_text where
    "plan_and_write_single example_runtime default_config caller_first_file
       = Inr (Some (mods, init_text))"
    by (auto split: sum.splits option.splits)
  then show ?thesis
    using blocks_in_component_order[of example_runtime default_config caller_first_file]
    by blast
qed

end
